theory Spec2Isabelle
  imports Main "HOL-Library.Multiset"
begin

section \<open>The binary heap of \<^verbatim>\<open>lemon/bin_heap.h\<close>\<close>

text \<open>
  \<^verbatim>\<open>BinHeap<PR, IM, CMP>\<close> keeps a vector \<^verbatim>\<open>_data\<close> of (item, priority) pairs and a
  reference \<^verbatim>\<open>_iim\<close> to an item-int map owned by the caller.  The record below holds
  both; an operation takes the record and returns the updated one.  The comparison
  functor \<^verbatim>\<open>_comp\<close> is fixed at construction and never assigned, so it is the first
  argument \<open>cmp\<close> of every function that compares.

  Slot numbers are \<^verbatim>\<open>int\<close> in the source.  A subscript outside the vector is undefined
  behaviour there, so a slot that is used as a subscript is a \<open>nat\<close> here, and every
  theorem carries the preconditions that keep each subscript inside the vector.  The
  values stored in the item-int map stay \<open>int\<close>: they hold the negative sentinels.
  Index arithmetic is unbounded: \<^verbatim>\<open>2*i+2\<close> stays below \<^verbatim>\<open>INT_MAX\<close> for every
  heap of fewer than \<open>2^30\<close> entries.
\<close>

record ('a, 'p) BinHeap =
  data :: "('a \<times> 'p) list"
  iim :: "'a \<Rightarrow> int"

datatype State = IN_HEAP | PRE_HEAP | POST_HEAP

text \<open>The enumerator values: \<^verbatim>\<open>IN_HEAP = 0, PRE_HEAP = -1, POST_HEAP = -2\<close>.\<close>

fun State_val :: "State \<Rightarrow> int" where
  "State_val IN_HEAP = 0"
| "State_val PRE_HEAP = - 1"
| "State_val POST_HEAP = - 2"

text \<open>The cast \<^verbatim>\<open>State(s)\<close>; an \<^verbatim>\<open>int\<close> that is no enumerator has no image.\<close>

definition State_of_int :: "int \<Rightarrow> State option" where
  "State_of_int s =
     (if s = 0 then Some IN_HEAP
      else if s = - 1 then Some PRE_HEAP
      else if s = - 2 then Some POST_HEAP
      else None)"

definition size_heap :: "('a, 'p) BinHeap \<Rightarrow> int" where
  "size_heap h = int (length (data h))"

definition empty_heap :: "('a, 'p) BinHeap \<Rightarrow> bool" where
  "empty_heap h = (data h = [])"

definition clear :: "('a, 'p) BinHeap \<Rightarrow> ('a, 'p) BinHeap" where
  "clear h = h\<lparr>data := []\<rparr>"

text \<open>
  \<^verbatim>\<open>parent(i) = (i-1)/2\<close> with C++ division, which truncates towards zero, so
  \<^verbatim>\<open>parent(0) = 0\<close>; subtraction on \<open>nat\<close> stops at zero and gives the same value.
\<close>

definition parent :: "nat \<Rightarrow> nat" where
  "parent i = (i - 1) div 2"

definition second_child :: "nat \<Rightarrow> nat" where
  "second_child i = 2 * i + 2"

definition less_pair :: "('p \<Rightarrow> 'p \<Rightarrow> bool) \<Rightarrow> 'a \<times> 'p \<Rightarrow> 'a \<times> 'p \<Rightarrow> bool" where
  "less_pair cmp p1 p2 = cmp (snd p1) (snd p2)"

text \<open>\<^verbatim>\<open>move(p, i)\<close>: store the pair in slot \<open>i\<close> and record the slot in the map.\<close>

definition move :: "('a, 'p) BinHeap \<Rightarrow> 'a \<times> 'p \<Rightarrow> nat \<Rightarrow> ('a, 'p) BinHeap" where
  "move h p i = h\<lparr>data := (data h)[i := p], iim := (iim h)(fst p := int i)\<rparr>"

text \<open>
  \<^verbatim>\<open>bubble_up(hole, p)\<close>: the loop is the recursive call; the result is the returned
  slot together with the updated heap.
\<close>

function bubble_up ::
  "('p \<Rightarrow> 'p \<Rightarrow> bool) \<Rightarrow> ('a, 'p) BinHeap \<Rightarrow> nat \<Rightarrow> 'a \<times> 'p \<Rightarrow> nat \<times> ('a, 'p) BinHeap" where
  "bubble_up cmp h hole p =
     (let par = parent hole in
      if 0 < hole \<and> less_pair cmp p (data h ! par)
      then bubble_up cmp (move h (data h ! par) hole) par p
      else (hole, move h p hole))"
  by pat_completeness auto
termination
  by (relation "measure (\<lambda>(cmp, h, hole, p). hole)") (auto simp: parent_def)

declare bubble_up.simps [simp del]

text \<open>
  The first statement of the loop body of \<^verbatim>\<open>bubble_down\<close>:
  \<^verbatim>\<open>if (less(_data[child-1], _data[child])) --child;\<close> where \<open>child\<close> is the second
  (right) child on entry.
\<close>

definition pick_child :: "('p \<Rightarrow> 'p \<Rightarrow> bool) \<Rightarrow> ('a \<times> 'p) list \<Rightarrow> nat \<Rightarrow> nat" where
  "pick_child cmp xs child =
     (if less_pair cmp (xs ! (child - 1)) (xs ! child) then child - 1 else child)"

text \<open>
  \<^verbatim>\<open>bubble_down(hole, p, length)\<close>.  The \<^verbatim>\<open>goto ok\<close> and the fall-through after the
  loop both end in \<^verbatim>\<open>move(p, hole); return hole\<close>.
\<close>

function bubble_down ::
  "('p \<Rightarrow> 'p \<Rightarrow> bool) \<Rightarrow> ('a, 'p) BinHeap \<Rightarrow> nat \<Rightarrow> 'a \<times> 'p \<Rightarrow> nat \<Rightarrow> nat \<times> ('a, 'p) BinHeap" where
  "bubble_down cmp h hole p len =
     (if second_child hole < len then
        (let child = pick_child cmp (data h) (second_child hole) in
         if \<not> less_pair cmp (data h ! child) p then (hole, move h p hole)
         else bubble_down cmp (move h (data h ! child) hole) child p len)
      else
        (let child = second_child hole - 1 in
         if child < len \<and> less_pair cmp (data h ! child) p
         then (child, move (move h (data h ! child) hole) p child)
         else (hole, move h p hole)))"
  by pat_completeness auto
termination
  by (relation "measure (\<lambda>(cmp, h, hole, p, len). len - hole)")
     (auto simp: second_child_def pick_child_def)

declare bubble_down.simps [simp del]

text \<open>
  \<^verbatim>\<open>push(p)\<close>: \<^verbatim>\<open>_data.resize(n+1)\<close> appends a value-initialised pair, which
  \<^verbatim>\<open>bubble_up(n, p)\<close> overwrites before any read of slot \<open>n\<close> (every access to the
  hole is a \<^verbatim>\<open>move\<close> into it); the model appends \<open>p\<close> in its place.  Lemma
  \<open>push_resize\<close> below shows that the result is the same for every pair appended.
\<close>

definition push :: "('p \<Rightarrow> 'p \<Rightarrow> bool) \<Rightarrow> ('a, 'p) BinHeap \<Rightarrow> 'a \<times> 'p \<Rightarrow> ('a, 'p) BinHeap" where
  "push cmp h p =
     (let n = length (data h) in
      snd (bubble_up cmp (h\<lparr>data := data h @ [p]\<rparr>) n p))"

definition top :: "('a, 'p) BinHeap \<Rightarrow> 'a" where
  "top h = fst (data h ! 0)"

definition prio :: "('a, 'p) BinHeap \<Rightarrow> 'p" where
  "prio h = snd (data h ! 0)"

definition pop :: "('p \<Rightarrow> 'p \<Rightarrow> bool) \<Rightarrow> ('a, 'p) BinHeap \<Rightarrow> ('a, 'p) BinHeap" where
  "pop cmp h =
     (let n = length (data h) - 1;
          h1 = h\<lparr>iim := (iim h)(fst (data h ! 0) := State_val POST_HEAP)\<rparr>;
          h2 = (if 0 < n then snd (bubble_down cmp h1 0 (data h1 ! n) n) else h1)
      in h2\<lparr>data := butlast (data h2)\<rparr>)"

definition erase :: "('p \<Rightarrow> 'p \<Rightarrow> bool) \<Rightarrow> ('a, 'p) BinHeap \<Rightarrow> 'a \<Rightarrow> ('a, 'p) BinHeap" where
  "erase cmp h i =
     (let hh = nat (iim h i);
          n = length (data h) - 1;
          h1 = h\<lparr>iim := (iim h)(fst (data h ! hh) := State_val POST_HEAP)\<rparr>;
          h2 = (if hh < n then
                  (case bubble_up cmp h1 hh (data h1 ! n) of
                     (k, h') \<Rightarrow>
                       if k = hh then snd (bubble_down cmp h' hh (data h' ! n) n) else h')
                else h1)
      in h2\<lparr>data := butlast (data h2)\<rparr>)"

text \<open>\<^verbatim>\<open>operator[](i)\<close>.\<close>

definition priorityOf :: "('a, 'p) BinHeap \<Rightarrow> 'a \<Rightarrow> 'p" where
  "priorityOf h i = (let idx = nat (iim h i) in snd (data h ! idx))"

text \<open>\<^verbatim>\<open>set(i, p)\<close>.\<close>

definition set_prio :: "('p \<Rightarrow> 'p \<Rightarrow> bool) \<Rightarrow> ('a, 'p) BinHeap \<Rightarrow> 'a \<Rightarrow> 'p \<Rightarrow> ('a, 'p) BinHeap" where
  "set_prio cmp h i p =
     (let idx = iim h i in
      if idx < 0 then push cmp h (i, p)
      else if cmp p (snd (data h ! nat idx)) then snd (bubble_up cmp h (nat idx) (i, p))
      else snd (bubble_down cmp h (nat idx) (i, p) (length (data h))))"

definition decrease :: "('p \<Rightarrow> 'p \<Rightarrow> bool) \<Rightarrow> ('a, 'p) BinHeap \<Rightarrow> 'a \<Rightarrow> 'p \<Rightarrow> ('a, 'p) BinHeap" where
  "decrease cmp h i p = (let idx = nat (iim h i) in snd (bubble_up cmp h idx (i, p)))"

definition increase :: "('p \<Rightarrow> 'p \<Rightarrow> bool) \<Rightarrow> ('a, 'p) BinHeap \<Rightarrow> 'a \<Rightarrow> 'p \<Rightarrow> ('a, 'p) BinHeap" where
  "increase cmp h i p =
     (let idx = nat (iim h i) in snd (bubble_down cmp h idx (i, p) (length (data h))))"

text \<open>\<^verbatim>\<open>state(i)\<close>: a slot number reads as \<^verbatim>\<open>IN_HEAP\<close>.\<close>

definition state :: "('a, 'p) BinHeap \<Rightarrow> 'a \<Rightarrow> State option" where
  "state h i = (let s = iim h i in State_of_int (if 0 \<le> s then 0 else s))"

text \<open>\<^verbatim>\<open>state(i, st)\<close>.\<close>

definition set_state :: "('p \<Rightarrow> 'p \<Rightarrow> bool) \<Rightarrow> ('a, 'p) BinHeap \<Rightarrow> 'a \<Rightarrow> State \<Rightarrow> ('a, 'p) BinHeap" where
  "set_state cmp h i st =
     (case st of
        IN_HEAP \<Rightarrow> h
      | _ \<Rightarrow>
          (let h1 = (if state h i = Some IN_HEAP then erase cmp h i else h)
           in h1\<lparr>iim := (iim h1)(i := State_val st)\<rparr>))"

definition replace :: "('a, 'p) BinHeap \<Rightarrow> 'a \<Rightarrow> 'a \<Rightarrow> ('a, 'p) BinHeap" where
  "replace h i j =
     (let idx = iim h i;
          h1 = h\<lparr>iim := (iim h)(i := iim h j)\<rparr>;
          h2 = h1\<lparr>iim := (iim h1)(j := idx)\<rparr>
      in h2\<lparr>data := (data h2)[nat idx := (j, snd (data h2 ! nat idx))]\<rparr>)"

section \<open>Specification\<close>

subsection \<open>The comparison and the invariants\<close>

text \<open>
  The requirement on \<^verbatim>\<open>CMP\<close>: a strict weak ordering, as for \<^verbatim>\<open>std::less\<close>:
  irreflexive, transitive, and with a transitive "not less" relation.
\<close>

definition strict_weak_order :: "('p \<Rightarrow> 'p \<Rightarrow> bool) \<Rightarrow> bool" where
  "strict_weak_order cmp \<longleftrightarrow>
     (\<forall>a. \<not> cmp a a) \<and>
     (\<forall>a b c. cmp a b \<longrightarrow> cmp b c \<longrightarrow> cmp a c) \<and>
     (\<forall>a b c. \<not> cmp a b \<longrightarrow> \<not> cmp b c \<longrightarrow> \<not> cmp a c)"

text \<open>
  Invariant 2, heap order: no entry at a non-root slot compares less than the entry at
  its parent slot.
\<close>

definition heap_order :: "('p \<Rightarrow> 'p \<Rightarrow> bool) \<Rightarrow> ('a \<times> 'p) list \<Rightarrow> bool" where
  "heap_order cmp xs \<longleftrightarrow> (\<forall>i\<in>{1..<length xs}. \<not> less_pair cmp (xs ! i) (xs ! parent i))"

text \<open>
  Invariant 3, index coherence: the map sends the item of every slot to that slot.
\<close>

definition index_coherent :: "('a, 'p) BinHeap \<Rightarrow> bool" where
  "index_coherent h \<longleftrightarrow> (\<forall>i\<in>{0..<length (data h)}. iim h (fst (data h ! i)) = int i)"

text \<open>
  Invariant 4, membership: an item whose map value is not negative occupies the slot the
  map names.  With coherence, the items with a non-negative map value are exactly the
  stored items, and no item is stored twice.
\<close>

definition index_truthful :: "('a, 'p) BinHeap \<Rightarrow> bool" where
  "index_truthful h \<longleftrightarrow>
     (\<forall>x. 0 \<le> iim h x \<longrightarrow> nat (iim h x) < length (data h) \<and> fst (data h ! nat (iim h x)) = x)"

definition indexed :: "('a, 'p) BinHeap \<Rightarrow> bool" where
  "indexed h \<longleftrightarrow> index_coherent h \<and> index_truthful h"

subsection \<open>Construction and sequences of calls\<close>

text \<open>
  The constructor \<^verbatim>\<open>BinHeap(ItemIntMap &map)\<close>: no entries, the caller's map.
\<close>

definition new_heap :: "('a \<Rightarrow> int) \<Rightarrow> ('a, 'p) BinHeap" where
  "new_heap m = \<lparr>data = [], iim = m\<rparr>"

text \<open>
  The empty heap over a map that assigns \<^verbatim>\<open>PRE_HEAP\<close> to every item.
\<close>

definition fresh :: "('a, 'p) BinHeap" where
  "fresh = new_heap (\<lambda>_. State_val PRE_HEAP)"

text \<open>
  The mutating public operations as a datatype of calls (\<open>SetState\<close> is the overload
  \<^verbatim>\<open>state(i, st)\<close>), the documented precondition of each call, and the run of a sequence
  of calls, which stops with \<open>None\<close> at the first call whose precondition does not hold.
  A push is allowed for every item that is not in the heap (PRE or POST), as \<^verbatim>\<open>set\<close>
  does it.  \<^verbatim>\<open>clear()\<close> is not among the calls: it leaves the map as it is, so the caller
  has to reset the map before the heap is used again.
\<close>

datatype ('a, 'p) Op =
    Push 'a 'p | Pop | Erase 'a | Set 'a 'p | Decrease 'a 'p | Increase 'a 'p
  | Replace 'a 'a | SetState 'a State

fun pre :: "('p \<Rightarrow> 'p \<Rightarrow> bool) \<Rightarrow> ('a, 'p) BinHeap \<Rightarrow> ('a, 'p) Op \<Rightarrow> bool" where
  "pre cmp h (Push i p) = (iim h i < 0)"
| "pre cmp h Pop = (data h \<noteq> [])"
| "pre cmp h (Erase i) = (0 \<le> iim h i)"
| "pre cmp h (Set i p) = True"
| "pre cmp h (Decrease i p) = (0 \<le> iim h i \<and> \<not> cmp (priorityOf h i) p)"
| "pre cmp h (Increase i p) = (0 \<le> iim h i \<and> \<not> cmp p (priorityOf h i))"
| "pre cmp h (Replace i j) = (0 \<le> iim h i \<and> iim h j < 0)"
| "pre cmp h (SetState i st) = True"

fun exec :: "('p \<Rightarrow> 'p \<Rightarrow> bool) \<Rightarrow> ('a, 'p) BinHeap \<Rightarrow> ('a, 'p) Op \<Rightarrow> ('a, 'p) BinHeap" where
  "exec cmp h (Push i p) = push cmp h (i, p)"
| "exec cmp h Pop = pop cmp h"
| "exec cmp h (Erase i) = erase cmp h i"
| "exec cmp h (Set i p) = set_prio cmp h i p"
| "exec cmp h (Decrease i p) = decrease cmp h i p"
| "exec cmp h (Increase i p) = increase cmp h i p"
| "exec cmp h (Replace i j) = replace h i j"
| "exec cmp h (SetState i st) = set_state cmp h i st"

fun run :: "('p \<Rightarrow> 'p \<Rightarrow> bool) \<Rightarrow> ('a, 'p) BinHeap \<Rightarrow> ('a, 'p) Op list \<Rightarrow> ('a, 'p) BinHeap option" where
  "run cmp h [] = Some h"
| "run cmp h (c # cs) = (if pre cmp h c then run cmp (exec cmp h c) cs else None)"

text \<open>
  Pushing a list of pairs, one \<^verbatim>\<open>push\<close> per pair, in order.
\<close>

fun push_all :: "('p \<Rightarrow> 'p \<Rightarrow> bool) \<Rightarrow> ('a, 'p) BinHeap \<Rightarrow> ('a \<times> 'p) list \<Rightarrow> ('a, 'p) BinHeap" where
  "push_all cmp h [] = h"
| "push_all cmp h (e # es) = push_all cmp (push cmp h e) es"

text \<open>
  \<open>n\<close> rounds of \<^verbatim>\<open>top()\<close>, \<^verbatim>\<open>prio()\<close>, \<^verbatim>\<open>pop()\<close>: the pairs read, in order, and the
  heap left.
\<close>

fun drain :: "('p \<Rightarrow> 'p \<Rightarrow> bool) \<Rightarrow> ('a, 'p) BinHeap \<Rightarrow> nat \<Rightarrow> ('a \<times> 'p) list \<times> ('a, 'p) BinHeap" where
  "drain cmp h 0 = ([], h)"
| "drain cmp h (Suc n) =
     (case drain cmp (pop cmp h) n of (es, h') \<Rightarrow> ((top h, prio h) # es, h'))"

text \<open>
  The pairs that draining the whole heap reads, in order.
\<close>

definition pop_order :: "('p \<Rightarrow> 'p \<Rightarrow> bool) \<Rightarrow> ('a, 'p) BinHeap \<Rightarrow> ('a \<times> 'p) list" where
  "pop_order cmp h = fst (drain cmp h (length (data h)))"

text \<open>
  The same call with every \<^verbatim>\<open>decrease\<close> and \<^verbatim>\<open>increase\<close> written as \<^verbatim>\<open>set\<close>.
\<close>

fun as_set :: "('a, 'p) Op \<Rightarrow> ('a, 'p) Op" where
  "as_set (Decrease i p) = Set i p"
| "as_set (Increase i p) = Set i p"
| "as_set c = c"

subsection \<open>Concrete heaps\<close>

text \<open>
  A sequence of calls of every kind but the state override, and the heap it ends in.
\<close>

definition calls1 :: "(nat, nat) Op list" where
  "calls1 = [Push 1 30, Push 2 10, Push 3 20, Push 4 5, Decrease 3 1, Increase 4 40,
             Set 5 7, Erase 2, Pop, Replace 1 6, Set 6 2]"

definition mixed_heap :: "(nat, nat) BinHeap" where
  "mixed_heap = foldl (exec (<)) fresh calls1"

text \<open>
  A heap whose root has two children of equal priority.
\<close>

definition tie_heap :: "(nat, nat) BinHeap" where
  "tie_heap = push (<) (push (<) (push (<) (push (<) fresh (1, 0)) (2, 1)) (3, 1)) (4, 2)"

text \<open>The same heap with a fifth entry, so that the root keeps both children in \<^verbatim>\<open>pop()\<close>.\<close>

definition tie_heap5 :: "(nat, nat) BinHeap" where
  "tie_heap5 = push (<) tie_heap (5, 3)"

text \<open>
  A heap of six entries built by pushes; its entries, slot by slot, are
  \<open>(1,1), (2,10), (3,2), (4,11), (5,12), (6,3)\<close>.
\<close>

definition demo_calls :: "(nat, nat) Op list" where
  "demo_calls = [Push 1 1, Push 2 10, Push 3 2, Push 4 11, Push 5 12, Push 6 3]"

definition demo_heap :: "(nat, nat) BinHeap" where
  "demo_heap = push (<) (push (<) (push (<) (push (<) (push (<) (push (<) fresh
     (1, 1)) (2, 10)) (3, 2)) (4, 11)) (5, 12)) (6, 3)"

text \<open>
  Priority changes on \<open>demo_heap\<close>, one of them to an equal priority, and the heap
  they end in.
\<close>

definition change_calls :: "(nat, nat) Op list" where
  "change_calls = [Decrease 4 0, Increase 1 20, Decrease 5 12, Increase 3 2, Decrease 6 1]"

definition changed_heap :: "(nat, nat) BinHeap" where
  "changed_heap = foldl (exec (<)) demo_heap change_calls"

section \<open>Notions used in the proofs\<close>

text \<open>
  Both loops keep a hole and a pending pair \<open>p\<close>.  The proofs look at the heap with
  \<open>p\<close> stored in the hole, \<open>move h p hole\<close>: one round of either loop then exchanges
  two slots of that heap, entries and map values alike.
\<close>

definition swap_slots :: "('a, 'p) BinHeap \<Rightarrow> nat \<Rightarrow> nat \<Rightarrow> ('a, 'p) BinHeap" where
  "swap_slots V k m =
     \<lparr>data = (data V)[k := data V ! m, m := data V ! k],
      iim = (iim V)(fst (data V ! m) := int k, fst (data V ! k) := int m)\<rparr>"

text \<open>
  The child that one round of \<^verbatim>\<open>bubble_down\<close> looks at, for the hole \<open>k\<close>: the left
  child when it is the only one or precedes the right child, else the right child.
\<close>

definition chosen :: "('p \<Rightarrow> 'p \<Rightarrow> bool) \<Rightarrow> ('a \<times> 'p) list \<Rightarrow> nat \<Rightarrow> nat \<Rightarrow> nat \<Rightarrow> bool" where
  "chosen cmp xs len k c \<longleftrightarrow> c < len \<and>
     (c = 2 * k + 1 \<and> (2 * k + 2 < len \<longrightarrow> less_pair cmp (xs ! (2 * k + 1)) (xs ! (2 * k + 2))) \<or>
      c = 2 * k + 2 \<and> \<not> less_pair cmp (xs ! (2 * k + 1)) (xs ! (2 * k + 2)))"

text \<open>
  Heap order on the first \<open>len\<close> slots, edge by edge; and the same with the edges at
  the hole \<open>k\<close> left out, where the children of \<open>k\<close> are compared with the parent of
  \<open>k\<close> instead.
\<close>

definition edge_ok :: "('p \<Rightarrow> 'p \<Rightarrow> bool) \<Rightarrow> ('a \<times> 'p) list \<Rightarrow> nat \<Rightarrow> bool" where
  "edge_ok cmp xs i \<longleftrightarrow> \<not> less_pair cmp (xs ! i) (xs ! parent i)"

definition order_upto :: "('p \<Rightarrow> 'p \<Rightarrow> bool) \<Rightarrow> ('a \<times> 'p) list \<Rightarrow> nat \<Rightarrow> bool" where
  "order_upto cmp xs len \<longleftrightarrow> (\<forall>i. 0 < i \<and> i < len \<longrightarrow> edge_ok cmp xs i)"

definition order_except :: "('p \<Rightarrow> 'p \<Rightarrow> bool) \<Rightarrow> ('a \<times> 'p) list \<Rightarrow> nat \<Rightarrow> nat \<Rightarrow> bool" where
  "order_except cmp xs len k \<longleftrightarrow>
     (\<forall>i. 0 < i \<and> i < len \<and> i \<noteq> k \<and> parent i \<noteq> k \<longrightarrow> edge_ok cmp xs i) \<and>
     (0 < k \<longrightarrow> (\<forall>c. c < len \<and> (c = 2 * k + 1 \<or> c = 2 * k + 2) \<longrightarrow>
        \<not> less_pair cmp (xs ! c) (xs ! parent k)))"

definition up_ok :: "('p \<Rightarrow> 'p \<Rightarrow> bool) \<Rightarrow> ('a \<times> 'p) list \<Rightarrow> nat \<Rightarrow> bool" where
  "up_ok cmp xs k \<longleftrightarrow> k = 0 \<or> edge_ok cmp xs k"

definition down_ok :: "('p \<Rightarrow> 'p \<Rightarrow> bool) \<Rightarrow> ('a \<times> 'p) list \<Rightarrow> nat \<Rightarrow> nat \<Rightarrow> bool" where
  "down_ok cmp xs len k \<longleftrightarrow>
     (\<forall>c. c < len \<and> (c = 2 * k + 1 \<or> c = 2 * k + 2) \<longrightarrow> \<not> less_pair cmp (xs ! c) (xs ! k))"

text \<open>
  Coherence and membership on the first \<open>len\<close> slots.
\<close>

definition slots_ok :: "('a, 'p) BinHeap \<Rightarrow> nat \<Rightarrow> bool" where
  "slots_ok h len \<longleftrightarrow>
     (\<forall>i<len. iim h (fst (data h ! i)) = int i) \<and>
     (\<forall>x. 0 \<le> iim h x \<longrightarrow> nat (iim h x) < len \<and> fst (data h ! nat (iim h x)) = x)"

text \<open>
  What the loops leave alone: the length, the multiset of the first \<open>len\<close> entries, the
  entries beyond them, and the map at every item that is not among the first \<open>len\<close>.
\<close>

definition same_entries :: "('a, 'p) BinHeap \<Rightarrow> ('a, 'p) BinHeap \<Rightarrow> nat \<Rightarrow> bool" where
  "same_entries V0 V len \<longleftrightarrow>
     length (data V) = length (data V0) \<and>
     mset (take len (data V)) = mset (take len (data V0)) \<and>
     drop len (data V) = drop len (data V0) \<and>
     (\<forall>x. x \<notin> fst ` set (take len (data V0)) \<longrightarrow> iim V x = iim V0 x)"

text \<open>
  The first step of \<^verbatim>\<open>pop\<close> (for slot 0) and of \<^verbatim>\<open>erase\<close>:
  \<^verbatim>\<open>_iim.set(_data[k].first, POST_HEAP)\<close>.
\<close>

definition unlink :: "('a, 'p) BinHeap \<Rightarrow> nat \<Rightarrow> ('a, 'p) BinHeap" where
  "unlink h k = h\<lparr>iim := (iim h)(fst (data h ! k) := State_val POST_HEAP)\<rparr>"

text \<open>
  The branch \<^verbatim>\<open>h < n\<close> of \<^verbatim>\<open>erase\<close>: bubble the last entry up from slot \<open>k\<close>, and
  down from there if it did not move.
\<close>

definition relocated :: "('p \<Rightarrow> 'p \<Rightarrow> bool) \<Rightarrow> ('a, 'p) BinHeap \<Rightarrow> nat \<Rightarrow> nat \<Rightarrow> ('a, 'p) BinHeap" where
  "relocated cmp h k n =
     (case bubble_up cmp (unlink h k) k (data h ! n) of
        (j, h') \<Rightarrow> if j = k then snd (bubble_down cmp h' k (data h' ! n) n) else h')"

section \<open>Lemmas\<close>

subsection \<open>Slots, and the loops one round at a time\<close>

lemma parent_less: "0 < i \<Longrightarrow> parent i < i"
  by (simp add: parent_def)

lemma parent_eq_iff: "0 < c \<Longrightarrow> parent c = k \<longleftrightarrow> c = 2 * k + 1 \<or> c = 2 * k + 2"
  unfolding parent_def by presburger

lemma move_move_swap:
  fixes h :: "('a, 'p) BinHeap"
  assumes "m \<noteq> k" "k < length (data h)"
  shows "move (move h (data h ! m) k) p m = swap_slots (move h p k) k m"
  using assms by (auto simp: move_def swap_slots_def list_update_swap fun_eq_iff)

lemma length_swap_slots: "length (data (swap_slots V k m)) = length (data V)"
  by (simp add: swap_slots_def)

lemma bubble_up_rec:
  "0 < hole \<Longrightarrow> less_pair cmp p (data h ! parent hole) \<Longrightarrow>
   bubble_up cmp h hole p = bubble_up cmp (move h (data h ! parent hole) hole) (parent hole) p"
  by (subst bubble_up.simps) (simp add: Let_def)

lemma bubble_up_stop:
  "\<not> (0 < hole \<and> less_pair cmp p (data h ! parent hole)) \<Longrightarrow>
   bubble_up cmp h hole p = (hole, move h p hole)"
  by (subst bubble_up.simps) (auto simp add: Let_def)

lemma bubble_down_pair:
  assumes "second_child hole < len"
  shows "bubble_down cmp h hole p len =
     (let child = pick_child cmp (data h) (second_child hole) in
      if \<not> less_pair cmp (data h ! child) p then (hole, move h p hole)
      else bubble_down cmp (move h (data h ! child) hole) child p len)"
  using assms by (subst bubble_down.simps) simp

lemma bubble_down_single:
  assumes "\<not> second_child hole < len"
  shows "bubble_down cmp h hole p len =
     (let child = second_child hole - 1 in
      if child < len \<and> less_pair cmp (data h ! child) p
      then (child, move (move h (data h ! child) hole) p child)
      else (hole, move h p hole))"
  using assms by (subst bubble_down.simps) simp

subsection \<open>Invariant rules for the two loops\<close>

text \<open>
  A property \<open>I\<close> of the hole and of the heap with the pending pair stored in the hole
  that survives the exchange of the hole with the slot the loop moves to holds when the
  loop ends; the test that ended the loop is then known as well.
\<close>

lemma bubble_up_rule:
  fixes h :: "('a, 'p) BinHeap"
  assumes "k < length (data h)"
    and "I k (move h p k)"
    and "\<And>V k. 0 < k \<Longrightarrow> k < length (data V) \<Longrightarrow> I k V \<Longrightarrow>
            less_pair cmp (data V ! k) (data V ! parent k) \<Longrightarrow>
            I (parent k) (swap_slots V k (parent k))"
    and "\<And>V k. k < length (data V) \<Longrightarrow> I k V \<Longrightarrow>
            k = 0 \<or> \<not> less_pair cmp (data V ! k) (data V ! parent k) \<Longrightarrow> Q k V"
  shows "Q (fst (bubble_up cmp h k p)) (snd (bubble_up cmp h k p))"
  using assms
proof (induction cmp h k p rule: bubble_up.induct)
  case (1 cmp h hole p)
  note step = "1.prems"(3) and final = "1.prems"(4)
  let ?par = "parent hole"
  show ?case
  proof (cases "0 < hole \<and> less_pair cmp p (data h ! ?par)")
    case True
    let ?h1 = "move h (data h ! ?par) hole"
    have par: "?par < hole" using True by (simp add: parent_less)
    have sw: "move ?h1 p ?par = swap_slots (move h p hole) hole ?par"
      using par "1.prems"(1) by (intro move_move_swap) auto
    have "I ?par (swap_slots (move h p hole) hole ?par)"
      using True par "1.prems"(1,2) by (intro step) (auto simp: move_def)
    then have "I ?par (move ?h1 p ?par)" using sw by simp
    moreover have "?par < length (data ?h1)" using par "1.prems"(1) by (simp add: move_def)
    ultimately have "Q (fst (bubble_up cmp ?h1 ?par p)) (snd (bubble_up cmp ?h1 ?par p))"
      using "1.IH"[OF refl] True step final by blast
    then show ?thesis using True by (simp add: bubble_up_rec)
  next
    case False
    have "Q hole (move h p hole)"
    proof (rule final)
      show "hole < length (data (move h p hole))" using "1.prems"(1) by (simp add: move_def)
      show "I hole (move h p hole)" by (rule "1.prems"(2))
      show "hole = 0 \<or> \<not> less_pair cmp (data (move h p hole) ! hole) (data (move h p hole) ! ?par)"
      proof (cases "hole = 0")
        case False
        then have "?par \<noteq> hole" using parent_less[of hole] by simp
        then show ?thesis using \<open>\<not> (0 < hole \<and> less_pair cmp p (data h ! ?par))\<close> "1.prems"(1)
          by (simp add: move_def)
      qed simp
    qed
    then show ?thesis using False by (simp add: bubble_up_stop)
  qed
qed

lemma bubble_down_rule:
  fixes h :: "('a, 'p) BinHeap"
  assumes "k < len" and "len \<le> length (data h)"
    and "I k (move h p k)"
    and "\<And>V k c. k < len \<Longrightarrow> I k V \<Longrightarrow> len \<le> length (data V) \<Longrightarrow> chosen cmp (data V) len k c \<Longrightarrow>
            less_pair cmp (data V ! c) (data V ! k) \<Longrightarrow> I c (swap_slots V k c)"
    and "\<And>V k. k < len \<Longrightarrow> I k V \<Longrightarrow> len \<le> length (data V) \<Longrightarrow>
            len \<le> 2 * k + 1 \<or>
            (\<exists>c. chosen cmp (data V) len k c \<and> \<not> less_pair cmp (data V ! c) (data V ! k)) \<Longrightarrow>
            Q k V"
  shows "Q (fst (bubble_down cmp h k p len)) (snd (bubble_down cmp h k p len))"
  using assms
proof (induction cmp h k p len rule: bubble_down.induct)
  case (1 cmp h hole p len)
  note step = "1.prems"(4) and final = "1.prems"(5)
  let ?V = "move h p hole"
  have lenV: "len \<le> length (data ?V)" using "1.prems"(2) by (simp add: move_def)
  have Vhole: "data ?V ! hole = p" using "1.prems"(1,2) by (simp add: move_def)
  have Vother: "c \<noteq> hole \<Longrightarrow> data ?V ! c = data h ! c" for c by (simp add: move_def)
  show ?case
  proof (cases "second_child hole < len")
    case True
    let ?c = "pick_child cmp (data h) (second_child hole)"
    have ch: "chosen cmp (data ?V) len hole ?c"
      using True by (auto simp: chosen_def pick_child_def second_child_def Vother)
    have c_gt: "hole < ?c" and c_lt: "?c < len"
      using True by (auto simp: pick_child_def second_child_def)
    show ?thesis
    proof (cases "less_pair cmp (data h ! ?c) p")
      case False
      have "Q hole ?V"
        using "1.prems"(1,3) lenV ch False c_gt by (intro final) (auto simp: Vhole Vother)
      then show ?thesis using True False by (subst (1 2) bubble_down.simps) (simp add: Let_def)
    next
      case less: True
      let ?h1 = "move h (data h ! ?c) hole"
      have sw: "move ?h1 p ?c = swap_slots ?V hole ?c"
        using c_gt c_lt "1.prems"(1,2) by (intro move_move_swap) auto
      have "I ?c (swap_slots ?V hole ?c)"
        using "1.prems"(1,3) lenV ch less c_gt by (intro step) (auto simp: Vhole Vother)
      then have "I ?c (move ?h1 p ?c)" using sw by simp
      moreover have "len \<le> length (data ?h1)" using "1.prems"(2) by (simp add: move_def)
      ultimately have "Q (fst (bubble_down cmp ?h1 ?c p len)) (snd (bubble_down cmp ?h1 ?c p len))"
        using "1.IH"[OF True refl] less c_lt step final by blast
      then show ?thesis using True less by (subst (1 2) bubble_down.simps) (simp add: Let_def)
    qed
  next
    case False
    let ?c = "second_child hole - 1"
    have c_eq: "?c = 2 * hole + 1" by (simp add: second_child_def)
    have c_ne: "?c \<noteq> hole" by (simp add: second_child_def)
    show ?thesis
    proof (cases "?c < len \<and> less_pair cmp (data h ! ?c) p")
      case True
      let ?h1 = "move h (data h ! ?c) hole"
      have ch: "chosen cmp (data ?V) len hole ?c"
        using True False by (auto simp: chosen_def second_child_def)
      have sw: "move ?h1 p ?c = swap_slots ?V hole ?c"
        using True "1.prems"(1,2) c_ne by (intro move_move_swap) auto
      have I': "I ?c (swap_slots ?V hole ?c)"
        using "1.prems"(1,3) lenV ch True Vother[OF c_ne] by (intro step) (auto simp: Vhole)
      have "Q ?c (swap_slots ?V hole ?c)"
        using True I' lenV False by (intro final) (auto simp: length_swap_slots second_child_def)
      then show ?thesis using True False sw
        by (subst (1 2) bubble_down.simps) (simp add: Let_def)
    next
      case no: False
      have "Q hole ?V"
      proof (rule final)
        show "hole < len" by (rule "1.prems"(1))
        show "I hole ?V" by (rule "1.prems"(3))
        show "len \<le> length (data ?V)" by (rule lenV)
        show "len \<le> 2 * hole + 1 \<or>
            (\<exists>c. chosen cmp (data ?V) len hole c \<and> \<not> less_pair cmp (data ?V ! c) (data ?V ! hole))"
        proof (cases "len \<le> 2 * hole + 1")
          case False
          then have "chosen cmp (data ?V) len hole (2 * hole + 1)"
            using \<open>\<not> second_child hole < len\<close> by (simp add: chosen_def second_child_def)
          moreover have "\<not> less_pair cmp (data ?V ! (2 * hole + 1)) (data ?V ! hole)"
            using no False Vother[of "2 * hole + 1"] by (simp add: Vhole second_child_def)
          ultimately show ?thesis by blast
        qed simp
      qed
      then show ?thesis using no False
        by (subst (1 2) bubble_down.simps) (auto simp add: Let_def)
    qed
  qed
qed

lemma bubble_down_stop:
  fixes h :: "('a, 'p) BinHeap"
  assumes "\<forall>c<len. c = 2 * hole + 1 \<or> c = 2 * hole + 2 \<longrightarrow> \<not> less_pair cmp (data h ! c) p"
  shows "bubble_down cmp h hole p len = (hole, move h p hole)"
proof (cases "second_child hole < len")
  case True
  let ?c = "pick_child cmp (data h) (second_child hole)"
  have "?c < len \<and> (?c = 2 * hole + 1 \<or> ?c = 2 * hole + 2)"
    using True by (auto simp: pick_child_def second_child_def)
  then have "\<not> less_pair cmp (data h ! ?c) p" using assms by blast
  then show ?thesis by (simp add: bubble_down_pair[OF True] Let_def)
next
  case False
  have "\<not> (second_child hole - 1 < len \<and> less_pair cmp (data h ! (second_child hole - 1)) p)"
    using assms by (auto simp: second_child_def)
  then show ?thesis by (auto simp add: bubble_down_single[OF False] Let_def)
qed

lemma bubble_up_virtual:
  fixes h1 h2 :: "('a, 'p) BinHeap"
  assumes "move h1 p k = move h2 p k" and "k < length (data h1)"
  shows "bubble_up cmp h1 k p = bubble_up cmp h2 k p"
  using assms
proof (induction k arbitrary: h1 h2 rule: less_induct)
  case (less k)
  have d: "(data h1)[k := p] = (data h2)[k := p]"
    using arg_cong[OF less.prems(1), of data] by (simp add: move_def)
  then have "length ((data h1)[k := p]) = length ((data h2)[k := p])" by simp
  then have k2: "k < length (data h2)" using less.prems(2) by simp
  show ?case
  proof (cases "0 < k")
    case False
    then show ?thesis using less.prems(1) by (simp add: bubble_up_stop)
  next
    case True
    let ?par = "parent k"
    have par: "?par < k" using True by (rule parent_less)
    have "(data h1)[k := p] ! ?par = (data h2)[k := p] ! ?par" using d by simp
    then have a: "data h1 ! ?par = data h2 ! ?par" using par by simp
    show ?thesis
    proof (cases "less_pair cmp p (data h1 ! ?par)")
      case False
      then show ?thesis using a less.prems(1) by (simp add: bubble_up_stop)
    next
      case lt: True
      have "move (move h1 (data h1 ! ?par) k) p ?par = swap_slots (move h1 p k) k ?par"
        using par less.prems(2) by (intro move_move_swap) auto
      moreover have "move (move h2 (data h2 ! ?par) k) p ?par = swap_slots (move h2 p k) k ?par"
        using par k2 by (intro move_move_swap) auto
      ultimately have "move (move h1 (data h1 ! ?par) k) p ?par =
          move (move h2 (data h1 ! ?par) k) p ?par"
        using less.prems(1) a by simp
      moreover have "?par < length (data (move h1 (data h1 ! ?par) k))"
        using par less.prems(2) by (simp add: move_def)
      ultimately have "bubble_up cmp (move h1 (data h1 ! ?par) k) ?par p =
          bubble_up cmp (move h2 (data h1 ! ?par) k) ?par p"
        by (rule less.IH[OF par])
      then show ?thesis using True lt a by (simp add: bubble_up_rec)
    qed
  qed
qed

subsection \<open>Heap order through an exchange\<close>

lemma swo_irrefl: "strict_weak_order cmp \<Longrightarrow> \<not> cmp a a"
  by (simp add: strict_weak_order_def)

lemma swo_trans: "strict_weak_order cmp \<Longrightarrow> cmp a b \<Longrightarrow> cmp b c \<Longrightarrow> cmp a c"
  unfolding strict_weak_order_def by blast

lemma swo_asym: "strict_weak_order cmp \<Longrightarrow> cmp a b \<Longrightarrow> \<not> cmp b a"
  unfolding strict_weak_order_def by blast

lemma swo_negtrans: "strict_weak_order cmp \<Longrightarrow> \<not> cmp a b \<Longrightarrow> \<not> cmp b c \<Longrightarrow> \<not> cmp a c"
  unfolding strict_weak_order_def by blast

lemma order_uptoI:
  assumes "order_except cmp xs len k" "up_ok cmp xs k" "down_ok cmp xs len k"
  shows "order_upto cmp xs len"
  unfolding order_upto_def
proof (intro allI impI)
  fix i assume i: "0 < i \<and> i < len"
  consider "i = k" | "i \<noteq> k" "parent i = k" | "i \<noteq> k" "parent i \<noteq> k" by blast
  then show "edge_ok cmp xs i"
  proof cases
    case 1 then show ?thesis using assms(2) i by (simp add: up_ok_def)
  next
    case 2
    then have "i = 2 * k + 1 \<or> i = 2 * k + 2" using i parent_eq_iff by blast
    then show ?thesis using assms(3) i 2 by (auto simp: down_ok_def edge_ok_def)
  next
    case 3 then show ?thesis using assms(1) i by (simp add: order_except_def)
  qed
qed

lemma order_except_update:
  assumes swo: "strict_weak_order cmp" and ord: "order_upto cmp xs len"
    and k: "k < len" "len \<le> length xs"
  shows "order_except cmp (xs[k := p]) len k"
  unfolding order_except_def
proof (intro conjI allI impI)
  fix i assume i: "0 < i \<and> i < len \<and> i \<noteq> k \<and> parent i \<noteq> k"
  then have "edge_ok cmp xs i" using ord by (simp add: order_upto_def)
  then show "edge_ok cmp (xs[k := p]) i" using i by (simp add: edge_ok_def)
next
  fix c assume k0: "0 < k" and c: "c < len \<and> (c = 2 * k + 1 \<or> c = 2 * k + 2)"
  have pc: "parent c = k" "0 < c" "c \<noteq> k" using c by (auto simp: parent_def)
  have pk: "parent k \<noteq> k" using parent_less[OF k0] by simp
  have "\<not> less_pair cmp (xs ! c) (xs ! k)"
    using ord c pc by (auto simp: order_upto_def edge_ok_def)
  moreover have "\<not> less_pair cmp (xs ! k) (xs ! parent k)"
    using ord k k0 by (auto simp: order_upto_def edge_ok_def)
  ultimately have "\<not> less_pair cmp (xs ! c) (xs ! parent k)"
    using swo_negtrans[OF swo] by (auto simp: less_pair_def)
  then show "\<not> less_pair cmp (xs[k := p] ! c) (xs[k := p] ! parent k)"
    using pc pk by simp
qed

lemma up_step:
  assumes swo: "strict_weak_order cmp"
    and k: "0 < k" "k < len" "len \<le> length xs"
    and ex: "order_except cmp xs len k"
    and lt: "less_pair cmp (xs ! k) (xs ! parent k)"
  defines "xs' \<equiv> xs[k := xs ! parent k, parent k := xs ! k]"
  shows "order_except cmp xs' len (parent k) \<and> down_ok cmp xs' len (parent k)"
proof -
  let ?m = "parent k"
  have m: "?m < k" using k by (simp add: parent_less)
  have at_k: "xs' ! k = xs ! ?m" and at_m: "xs' ! ?m = xs ! k"
    and other: "\<And>i. i \<noteq> k \<Longrightarrow> i \<noteq> ?m \<Longrightarrow> xs' ! i = xs ! i"
    using m k by (auto simp: xs'_def)
  have kch: "k = 2 * ?m + 1 \<or> k = 2 * ?m + 2" using k(1) parent_eq_iff by blast
  have down: "down_ok cmp xs' len ?m"
    unfolding down_ok_def
  proof (intro allI impI)
    fix c assume c: "c < len \<and> (c = 2 * ?m + 1 \<or> c = 2 * ?m + 2)"
    show "\<not> less_pair cmp (xs' ! c) (xs' ! ?m)"
    proof (cases "c = k")
      case True
      then show ?thesis using lt swo_asym[OF swo] by (auto simp: at_k at_m less_pair_def)
    next
      case False
      have pc: "parent c = ?m" "0 < c" "c \<noteq> ?m" using c by (auto simp: parent_def)
      then have "edge_ok cmp xs c" using ex c False m by (auto simp: order_except_def)
      then have "\<not> less_pair cmp (xs ! c) (xs ! ?m)" using pc by (simp add: edge_ok_def)
      then have "\<not> less_pair cmp (xs ! c) (xs ! k)"
        using lt swo_trans[OF swo] by (auto simp: less_pair_def)
      then show ?thesis using False pc by (simp add: other at_m)
    qed
  qed
  have exc: "order_except cmp xs' len ?m"
    unfolding order_except_def
  proof (intro conjI allI impI)
    fix i assume i: "0 < i \<and> i < len \<and> i \<noteq> ?m \<and> parent i \<noteq> ?m"
    then have ik: "i \<noteq> k" by blast
    show "edge_ok cmp xs' i"
    proof (cases "parent i = k")
      case True
      then have "i = 2 * k + 1 \<or> i = 2 * k + 2" using i parent_eq_iff by blast
      then have "\<not> less_pair cmp (xs ! i) (xs ! ?m)"
        using ex i k(1) by (auto simp: order_except_def)
      then show ?thesis using True i ik by (simp add: edge_ok_def other at_k)
    next
      case False
      then have "edge_ok cmp xs i" using ex i ik by (simp add: order_except_def)
      then show ?thesis using False i ik by (simp add: edge_ok_def other)
    qed
  next
    fix c assume m0: "0 < ?m" and c: "c < len \<and> (c = 2 * ?m + 1 \<or> c = 2 * ?m + 2)"
    have pm: "parent ?m < ?m" using m0 by (rule parent_less)
    have pmk: "parent ?m \<noteq> k" using pm m by simp
    have em: "\<not> less_pair cmp (xs ! ?m) (xs ! parent ?m)"
      using ex m0 m k pm by (auto simp: order_except_def edge_ok_def)
    have g: "xs' ! parent ?m = xs ! parent ?m" using pm pmk by (simp add: other)
    show "\<not> less_pair cmp (xs' ! c) (xs' ! parent ?m)"
    proof (cases "c = k")
      case True
      then show ?thesis using em by (simp add: at_k g)
    next
      case False
      have pc: "parent c = ?m" "0 < c" "c \<noteq> ?m" using c by (auto simp: parent_def)
      then have "edge_ok cmp xs c" using ex c False m by (auto simp: order_except_def)
      then have "\<not> less_pair cmp (xs ! c) (xs ! ?m)" using pc by (simp add: edge_ok_def)
      then have "\<not> less_pair cmp (xs ! c) (xs ! parent ?m)"
        using em swo_negtrans[OF swo] by (auto simp: less_pair_def)
      then show ?thesis using False pc by (simp add: other g)
    qed
  qed
  show ?thesis using exc down by simp
qed

lemma chosen_min:
  assumes swo: "strict_weak_order cmp" and ch: "chosen cmp xs len k c"
    and c': "c' < len" "c' = 2 * k + 1 \<or> c' = 2 * k + 2"
  shows "\<not> less_pair cmp (xs ! c') (xs ! c)"
  using ch c' swo_irrefl[OF swo] swo_asym[OF swo]
  by (auto simp: chosen_def less_pair_def)

lemma down_step:
  assumes swo: "strict_weak_order cmp"
    and k: "k < len" "len \<le> length xs"
    and ch: "chosen cmp xs len k c"
    and lt: "less_pair cmp (xs ! c) (xs ! k)"
    and ex: "order_except cmp xs len k"
    and up: "up_ok cmp xs k"
  defines "xs' \<equiv> xs[k := xs ! c, c := xs ! k]"
  shows "order_except cmp xs' len c \<and> up_ok cmp xs' c"
proof -
  have c: "c < len" "c = 2 * k + 1 \<or> c = 2 * k + 2" using ch by (auto simp: chosen_def)
  have pc: "parent c = k" "0 < c" "k < c" using c by (auto simp: parent_def)
  have at_k: "xs' ! k = xs ! c" and at_c: "xs' ! c = xs ! k"
    and other: "\<And>i. i \<noteq> k \<Longrightarrow> i \<noteq> c \<Longrightarrow> xs' ! i = xs ! i"
    using pc k c by (auto simp: xs'_def)
  have upc: "up_ok cmp xs' c"
    using lt swo_asym[OF swo] pc by (auto simp: up_ok_def edge_ok_def at_k at_c less_pair_def)
  have exc: "order_except cmp xs' len c"
    unfolding order_except_def
  proof (intro conjI allI impI)
    fix i assume i: "0 < i \<and> i < len \<and> i \<noteq> c \<and> parent i \<noteq> c"
    show "edge_ok cmp xs' i"
    proof (cases "i = k")
      case True
      then have pk: "parent k < k" using i parent_less by blast
      have "\<not> less_pair cmp (xs ! c) (xs ! parent k)"
        using ex c i True by (auto simp: order_except_def)
      moreover have "xs' ! parent k = xs ! parent k" using pk pc by (simp add: other)
      ultimately show ?thesis using True by (simp add: edge_ok_def at_k)
    next
      case ik: False
      show ?thesis
      proof (cases "parent i = k")
        case True
        then have "i = 2 * k + 1 \<or> i = 2 * k + 2" using i parent_eq_iff by blast
        then have "\<not> less_pair cmp (xs ! i) (xs ! c)"
          using chosen_min[OF swo ch] i by blast
        then show ?thesis using True i ik by (simp add: edge_ok_def other at_k)
      next
        case False
        then have "edge_ok cmp xs i" using ex i ik by (simp add: order_except_def)
        then show ?thesis using False i ik by (simp add: edge_ok_def other)
      qed
    qed
  next
    fix d assume "0 < c" and d: "d < len \<and> (d = 2 * c + 1 \<or> d = 2 * c + 2)"
    have pd: "parent d = c" "0 < d" "d \<noteq> c" "d \<noteq> k" using d pc by (auto simp: parent_def)
    then have "edge_ok cmp xs d" using ex d pc by (auto simp: order_except_def)
    then have "\<not> less_pair cmp (xs ! d) (xs ! c)" using pd by (simp add: edge_ok_def)
    then show "\<not> less_pair cmp (xs' ! d) (xs' ! parent c)" using pd pc by (simp add: other at_k)
  qed
  show ?thesis using exc upc by simp
qed

lemma down_final:
  assumes swo: "strict_weak_order cmp"
    and fin: "len \<le> 2 * k + 1 \<or> (\<exists>c. chosen cmp xs len k c \<and> \<not> less_pair cmp (xs ! c) (xs ! k))"
  shows "down_ok cmp xs len k"
  unfolding down_ok_def
proof (intro allI impI)
  fix d assume d: "d < len \<and> (d = 2 * k + 1 \<or> d = 2 * k + 2)"
  then obtain c where ch: "chosen cmp xs len k c" and nl: "\<not> less_pair cmp (xs ! c) (xs ! k)"
    using fin by auto
  have "\<not> less_pair cmp (xs ! d) (xs ! c)" using chosen_min[OF swo ch] d by blast
  then show "\<not> less_pair cmp (xs ! d) (xs ! k)"
    using nl swo_negtrans[OF swo] by (auto simp: less_pair_def)
qed

lemma data_swap_slots: "data (swap_slots V k m) = (data V)[k := data V ! m, m := data V ! k]"
  by (simp add: swap_slots_def)

lemma bubble_down_order:
  fixes h :: "('a, 'p) BinHeap"
  assumes swo: "strict_weak_order cmp"
    and k: "k < len" "len \<le> length (data h)"
    and ex: "order_except cmp (data (move h p k)) len k"
    and up: "up_ok cmp (data (move h p k)) k"
  shows "order_upto cmp (data (snd (bubble_down cmp h k p len))) len"
proof -
  let ?I = "\<lambda>k V. order_except cmp (data V) len k \<and> up_ok cmp (data V) k"
  let ?Q = "\<lambda>(k::nat) (V::('a, 'p) BinHeap). order_upto cmp (data V) len"
  have "?Q (fst (bubble_down cmp h k p len)) (snd (bubble_down cmp h k p len))"
  proof (rule bubble_down_rule[where I = ?I and Q = ?Q, OF k])
    show "?I k (move h p k)" using ex up by simp
  next
    fix V :: "('a, 'p) BinHeap" and k c
    assume "k < len" "?I k V" "len \<le> length (data V)" "chosen cmp (data V) len k c"
      "less_pair cmp (data V ! c) (data V ! k)"
    then show "?I c (swap_slots V k c)"
      using down_step[OF swo, of k len "data V" c] by (simp add: data_swap_slots)
  next
    fix V :: "('a, 'p) BinHeap" and k
    assume "k < len" "?I k V" "len \<le> length (data V)"
      "len \<le> 2 * k + 1 \<or> (\<exists>c. chosen cmp (data V) len k c \<and> \<not> less_pair cmp (data V ! c) (data V ! k))"
    then show "?Q k V"
      using down_final[OF swo, of len k "data V"] order_uptoI by blast
  qed
  then show ?thesis .
qed

lemma bubble_up_order:
  fixes h :: "('a, 'p) BinHeap"
  assumes swo: "strict_weak_order cmp"
    and k: "k < len" "len \<le> length (data h)"
    and ex: "order_except cmp (data (move h p k)) len k"
  defines "r \<equiv> bubble_up cmp h k p"
  shows "fst r \<le> k \<and> (fst r = k \<longrightarrow> snd r = move h p k) \<and>
         order_except cmp (data (snd r)) len (fst r) \<and> up_ok cmp (data (snd r)) (fst r) \<and>
         (fst r \<noteq> k \<or> down_ok cmp (data (move h p k)) len k \<longrightarrow> order_upto cmp (data (snd r)) len)"
proof -
  let ?D = "down_ok cmp (data (move h p k)) len k"
  let ?I = "\<lambda>j V. j \<le> k \<and> len \<le> length (data V) \<and> (j = k \<longrightarrow> V = move h p k) \<and>
      order_except cmp (data V) len j \<and> (j \<noteq> k \<or> ?D \<longrightarrow> down_ok cmp (data V) len j)"
  let ?Q = "\<lambda>j V. j \<le> k \<and> (j = k \<longrightarrow> V = move h p k) \<and>
      order_except cmp (data V) len j \<and> up_ok cmp (data V) j \<and>
      (j \<noteq> k \<or> ?D \<longrightarrow> order_upto cmp (data V) len)"
  have kl: "k < length (data h)" using k by simp
  have "?Q (fst (bubble_up cmp h k p)) (snd (bubble_up cmp h k p))"
  proof (rule bubble_up_rule[where I = ?I and Q = ?Q, OF kl])
    show "?I k (move h p k)" using ex k by (simp add: move_def)
  next
    fix V :: "('a, 'p) BinHeap" and j
    assume j: "0 < j" "j < length (data V)" and I: "?I j V"
      and lt: "less_pair cmp (data V ! j) (data V ! parent j)"
    have "j < len" using I k by simp
    then have "order_except cmp (data (swap_slots V j (parent j))) len (parent j) \<and>
        down_ok cmp (data (swap_slots V j (parent j))) len (parent j)"
      using up_step[OF swo j(1), of len "data V"] I lt by (simp add: data_swap_slots)
    moreover have "parent j < k" using parent_less[OF j(1)] I by simp
    ultimately show "?I (parent j) (swap_slots V j (parent j))"
      using I by (simp add: length_swap_slots)
  next
    fix V :: "('a, 'p) BinHeap" and j
    assume "j < length (data V)" and I: "?I j V"
      and "j = 0 \<or> \<not> less_pair cmp (data V ! j) (data V ! parent j)"
    then have "up_ok cmp (data V) j" by (auto simp: up_ok_def edge_ok_def)
    then show "?Q j V" using I order_uptoI by blast
  qed
  then show ?thesis by (simp add: r_def)
qed

subsection \<open>The map and the entries through an exchange\<close>

lemma same_entries_refl: "same_entries V V len"
  by (simp add: same_entries_def)

lemma same_entries_trans:
  assumes "same_entries V0 V1 len" "same_entries V1 V2 len"
  shows "same_entries V0 V2 len"
proof -
  have "set (take len (data V1)) = set (take len (data V0))"
    using assms(1) mset_eq_setD by (auto simp: same_entries_def)
  then show ?thesis using assms by (simp add: same_entries_def)
qed

lemma swap_slots_ok:
  assumes ok: "slots_ok V len" and k: "k < len" and m: "m < len"
    and len: "len \<le> length (data V)"
  shows "slots_ok (swap_slots V k m) len"
proof -
  have kl: "k < length (data V)" and ml: "m < length (data V)" using k m len by simp_all
  let ?xs = "data V" and ?f = "iim V"
  let ?a = "fst (?xs ! m)" and ?b = "fst (?xs ! k)"
  let ?W = "swap_slots V k m"
  have fa: "?f ?a = int m" and fb: "?f ?b = int k" using ok k m by (auto simp: slots_ok_def)
  show ?thesis
  proof (cases "m = k")
    case True
    then have "?W = V" using fb by (simp add: swap_slots_def fun_upd_idem)
    then show ?thesis using ok by simp
  next
    case False
    then have ab: "?a \<noteq> ?b" using fa fb by auto
    have slot: "\<And>x. x \<noteq> ?a \<Longrightarrow> x \<noteq> ?b \<Longrightarrow> 0 \<le> ?f x \<Longrightarrow> nat (?f x) \<noteq> k \<and> nat (?f x) \<noteq> m"
      using ok by (auto simp: slots_ok_def)
    have item: "\<And>i. i < len \<Longrightarrow> i \<noteq> k \<Longrightarrow> i \<noteq> m \<Longrightarrow> fst (?xs ! i) \<noteq> ?a \<and> fst (?xs ! i) \<noteq> ?b"
      using ok fa fb by (auto simp: slots_ok_def)
    have iimW: "iim ?W = ?f(?a := int k, ?b := int m)" by (simp add: swap_slots_def)
    have dataW: "data ?W = ?xs[k := ?xs ! m, m := ?xs ! k]" by (simp add: swap_slots_def)
    show ?thesis
      unfolding slots_ok_def
    proof (rule conjI; intro allI impI)
      fix i assume i: "i < len"
      consider "i = k" | "i = m" | "i \<noteq> k" "i \<noteq> m" by blast
      then show "iim ?W (fst (data ?W ! i)) = int i"
      proof cases
        case 1 then show ?thesis using False ab kl ml by (simp add: iimW dataW)
      next
        case 2 then show ?thesis using False ab kl ml by (simp add: iimW dataW)
      next
        case 3
        then show ?thesis using item[OF i] ok i by (simp add: iimW dataW slots_ok_def)
      qed
    next
      fix x assume x: "0 \<le> iim ?W x"
      consider "x = ?a" | "x = ?b" | "x \<noteq> ?a" "x \<noteq> ?b" by blast
      then show "nat (iim ?W x) < len \<and> fst (data ?W ! nat (iim ?W x)) = x"
      proof cases
        case 1 then show ?thesis using False ab k kl ml by (simp add: iimW dataW)
      next
        case 2 then show ?thesis using False ab m kl ml by (simp add: iimW dataW)
      next
        case 3
        then have fx: "0 \<le> ?f x" "iim ?W x = ?f x" using x by (simp_all add: iimW)
        then show ?thesis using slot[OF 3 fx(1)] ok by (simp add: dataW slots_ok_def)
      qed
    qed
  qed
qed

lemma swap_same_entries:
  assumes k: "k < len" and m: "m < len" and len: "len \<le> length (data V)"
  shows "same_entries V (swap_slots V k m) len"
proof -
  let ?xs = "data V"
  let ?ys = "take len ?xs"
  have nth: "?ys ! m = ?xs ! m" "?ys ! k = ?xs ! k" using k m by simp_all
  have tk: "take len (?xs[k := ?xs ! m, m := ?xs ! k]) = ?ys[k := ?ys ! m, m := ?ys ! k]"
    unfolding nth by (simp only: take_update_swap)
  have "mset (?ys[k := ?ys ! m, m := ?ys ! k]) = mset ?ys"
    using k m len mset_swap[of m ?ys k] by simp
  moreover have "?ys ! m \<in> set ?ys" "?ys ! k \<in> set ?ys"
    using k m len by (simp_all del: nth_take)
  then have "fst (?xs ! m) \<in> fst ` set ?ys" "fst (?xs ! k) \<in> fst ` set ?ys"
    unfolding nth by blast+
  ultimately show ?thesis
    using k m tk by (auto simp: same_entries_def swap_slots_def)
qed

lemma bubble_up_frame:
  fixes h :: "('a, 'p) BinHeap"
    and cmp p
  assumes k: "k < len" "len \<le> length (data h)"
  defines "r \<equiv> bubble_up cmp h k p"
  shows "same_entries (move h p k) (snd r) len \<and>
         (slots_ok (move h p k) len \<longrightarrow> slots_ok (snd r) len) \<and>
         fst r \<le> k \<and> (fst r = k \<longrightarrow> snd r = move h p k)"
proof -
  let ?S = "slots_ok (move h p k) len"
  let ?I = "\<lambda>j V. j < len \<and> len \<le> length (data V) \<and> same_entries (move h p k) V len \<and>
      (?S \<longrightarrow> slots_ok V len) \<and> j \<le> k \<and> (j = k \<longrightarrow> V = move h p k)"
  let ?Q = "\<lambda>j V. same_entries (move h p k) V len \<and> (?S \<longrightarrow> slots_ok V len) \<and>
      j \<le> k \<and> (j = k \<longrightarrow> V = move h p k)"
  have kl: "k < length (data h)" using k by simp
  have "?Q (fst (bubble_up cmp h k p)) (snd (bubble_up cmp h k p))"
  proof (rule bubble_up_rule[where I = ?I and Q = ?Q, OF kl])
    show "?I k (move h p k)" using k by (simp add: same_entries_refl) (simp add: move_def)
  next
    fix V :: "('a, 'p) BinHeap" and j
    assume j: "0 < j" and I: "?I j V"
    have pj: "parent j < len" "parent j < k" using parent_less[OF j] I by simp_all
    have "same_entries V (swap_slots V j (parent j)) len"
      using I pj by (intro swap_same_entries) auto
    then have "same_entries (move h p k) (swap_slots V j (parent j)) len"
      using I same_entries_trans by blast
    then show "?I (parent j) (swap_slots V j (parent j))"
      using I pj swap_slots_ok[of V len j "parent j"] by (simp add: length_swap_slots)
  qed simp
  then show ?thesis by (simp add: r_def)
qed

lemma bubble_down_frame:
  fixes h :: "('a, 'p) BinHeap"
    and cmp p
  assumes k: "k < len" "len \<le> length (data h)"
  defines "r \<equiv> bubble_down cmp h k p len"
  shows "same_entries (move h p k) (snd r) len \<and>
         (slots_ok (move h p k) len \<longrightarrow> slots_ok (snd r) len)"
proof -
  let ?S = "slots_ok (move h p k) len"
  let ?I = "\<lambda>(j::nat) V. same_entries (move h p k) V len \<and> (?S \<longrightarrow> slots_ok V len)"
  have "?I (fst (bubble_down cmp h k p len)) (snd (bubble_down cmp h k p len))"
  proof (rule bubble_down_rule[where I = ?I and Q = ?I, OF k])
    show "?I k (move h p k)" by (simp add: same_entries_refl)
  next
    fix V :: "('a, 'p) BinHeap" and j c
    assume j: "j < len" and I: "?I j V" and len: "len \<le> length (data V)"
      and ch: "chosen cmp (data V) len j c"
    have c: "c < len" using ch by (simp add: chosen_def)
    have "same_entries V (swap_slots V j c) len"
      using j c len by (intro swap_same_entries) auto
    then have "same_entries (move h p k) (swap_slots V j c) len"
      using I same_entries_trans by blast
    then show "?I c (swap_slots V j c)"
      using I j c len swap_slots_ok[of V len j c] by simp
  qed simp
  then show ?thesis by (simp add: r_def)
qed

subsection \<open>The invariants, and dropping the last slot\<close>

lemma heap_order_upto: "heap_order cmp xs \<longleftrightarrow> order_upto cmp xs (length xs)"
  by (auto simp: heap_order_def order_upto_def edge_ok_def)

lemma indexed_slots: "indexed h \<longleftrightarrow> slots_ok h (length (data h))"
  by (auto simp: indexed_def index_coherent_def index_truthful_def slots_ok_def)

lemma order_upto_butlast:
  assumes "order_upto cmp xs n" "length xs = Suc n"
  shows "heap_order cmp (butlast xs)"
  unfolding heap_order_upto order_upto_def edge_ok_def
proof (intro allI impI)
  fix i assume i: "0 < i \<and> i < length (butlast xs)"
  then have "parent i < length (butlast xs)" using parent_less[of i] by simp
  then show "\<not> less_pair cmp (butlast xs ! i) (butlast xs ! parent i)"
    using assms i by (simp add: nth_butlast order_upto_def edge_ok_def)
qed

lemma slots_ok_butlast:
  assumes "slots_ok h n" "length (data h) = Suc n"
  shows "indexed (h\<lparr>data := butlast (data h)\<rparr>)"
  using assms unfolding indexed_slots slots_ok_def by (simp add: nth_butlast)

lemma indexed_nth: "indexed h \<Longrightarrow> i < length (data h) \<Longrightarrow> iim h (fst (data h ! i)) = int i"
  by (simp add: indexed_def index_coherent_def)

lemma indexed_inj:
  assumes "indexed h" "i < length (data h)" "j < length (data h)"
    and "fst (data h ! i) = fst (data h ! j)"
  shows "i = j"
proof -
  have "int i = iim h (fst (data h ! i))" using indexed_nth[OF assms(1,2)] by simp
  also have "\<dots> = iim h (fst (data h ! j))" by (simp only: assms(4))
  also have "\<dots> = int j" by (rule indexed_nth[OF assms(1,3)])
  finally show ?thesis by simp
qed

lemma indexed_stored:
  assumes "indexed h" "e \<in> set (data h)"
  shows "0 \<le> iim h (fst e) \<and> nat (iim h (fst e)) < length (data h) \<and> data h ! nat (iim h (fst e)) = e"
proof -
  obtain j where j: "j < length (data h)" "data h ! j = e"
    using assms(2) by (auto simp: in_set_conv_nth)
  then have "iim h (fst e) = int j" using assms(1) by (auto simp: indexed_def index_coherent_def)
  then show ?thesis using j by simp
qed

lemma indexed_not_stored: "indexed h \<Longrightarrow> iim h x < 0 \<Longrightarrow> x \<notin> fst ` set (data h)"
  using indexed_stored by fastforce

lemma indexed_in_heap:
  assumes "indexed h" "0 \<le> iim h x"
  shows "nat (iim h x) < length (data h) \<and> data h ! nat (iim h x) = (x, priorityOf h x)"
  using assms by (auto simp: indexed_def index_truthful_def priorityOf_def prod_eq_iff)

lemma same_entries_mset:
  assumes "same_entries V0 V len"
  shows "mset (data V) = mset (data V0)"
proof -
  have "mset (take len (data V) @ drop len (data V)) = mset (take len (data V0) @ drop len (data V0))"
    using assms unfolding same_entries_def mset_append by simp
  then show ?thesis by simp
qed

subsection \<open>\<^verbatim>\<open>push\<close>\<close>

lemma push_indexed:
  fixes h :: "('a, 'p) BinHeap"
  assumes ix: "indexed h" and pre: "iim h (fst p) < 0"
  shows "indexed (push cmp h p) \<and> mset (data (push cmp h p)) = mset (data h) + {#p#} \<and>
         (\<forall>x. x \<noteq> fst p \<longrightarrow> iim h x < 0 \<longrightarrow> iim (push cmp h p) x = iim h x)"
proof -
  let ?n = "length (data h)"
  let ?h0 = "h\<lparr>data := data h @ [p]\<rparr>"
  let ?V = "move ?h0 p ?n"
  let ?r = "snd (bubble_up cmp ?h0 ?n p)"
  have dV: "data ?V = data h @ [p]" and iV: "iim ?V = (iim h)(fst p := int ?n)"
    by (simp_all add: move_def)
  have np: "fst p \<notin> fst ` set (data h)" using indexed_not_stored[OF ix pre] .
  have ok: "slots_ok ?V (Suc ?n)"
    unfolding slots_ok_def
  proof (rule conjI; intro allI impI)
    fix i assume "i < Suc ?n"
    then consider "i = ?n" | "i < ?n" by linarith
    then show "iim ?V (fst (data ?V ! i)) = int i"
    proof cases
      case 1 then show ?thesis by (simp add: dV iV)
    next
      case 2
      then have "fst (data h ! i) \<noteq> fst p" using np by (metis imageI nth_mem)
      then show ?thesis using 2 ix by (simp add: dV iV nth_append indexed_slots slots_ok_def)
    qed
  next
    fix x assume x: "0 \<le> iim ?V x"
    show "nat (iim ?V x) < Suc ?n \<and> fst (data ?V ! nat (iim ?V x)) = x"
    proof (cases "x = fst p")
      case True then show ?thesis by (simp add: dV iV)
    next
      case False
      then show ?thesis using x ix by (auto simp: dV iV nth_append indexed_slots slots_ok_def)
    qed
  qed
  have fr: "same_entries ?V ?r (Suc ?n) \<and> (slots_ok ?V (Suc ?n) \<longrightarrow> slots_ok ?r (Suc ?n))"
    using bubble_up_frame[where k = ?n and len = "Suc ?n" and h = ?h0 and cmp = cmp and p = p]
    by simp
  have len: "length (data ?r) = Suc ?n" using fr by (simp add: same_entries_def dV)
  have r: "push cmp h p = ?r" by (simp add: push_def Let_def)
  have "indexed ?r" using fr ok len by (simp add: indexed_slots)
  moreover have "mset (data ?r) = mset (data ?V)"
    using fr by (intro same_entries_mset) blast
  then have "mset (data ?r) = mset (data h) + {#p#}"
    unfolding dV by simp
  moreover have "iim ?r x = iim h x" if "x \<noteq> fst p" "iim h x < 0" for x
  proof -
    have "x \<notin> fst ` set (data h)" using indexed_not_stored[OF ix that(2)] .
    then have "x \<notin> fst ` set (take (Suc ?n) (data ?V))" using that(1) by (auto simp: dV)
    then have "iim ?r x = iim ?V x" using fr by (simp add: same_entries_def)
    then show ?thesis using that(1) by (simp add: iV)
  qed
  ultimately show ?thesis unfolding r by blast
qed

lemma push_order:
  fixes h :: "('a, 'p) BinHeap"
  assumes swo: "strict_weak_order cmp" and ord: "heap_order cmp (data h)"
  shows "heap_order cmp (data (push cmp h p))"
proof -
  let ?n = "length (data h)"
  let ?h0 = "h\<lparr>data := data h @ [p]\<rparr>"
  let ?V = "move ?h0 p ?n"
  let ?r = "bubble_up cmp ?h0 ?n p"
  have dV: "data ?V = data h @ [p]" by (simp add: move_def)
  have ex: "order_except cmp (data ?V) (Suc ?n) ?n"
    unfolding order_except_def
  proof (rule conjI; intro allI impI)
    fix i assume i: "0 < i \<and> i < Suc ?n \<and> i \<noteq> ?n \<and> parent i \<noteq> ?n"
    then have "i < ?n" "parent i < ?n" using parent_less[of i] by simp_all
    then show "edge_ok cmp (data ?V) i"
      using ord i by (simp add: dV nth_append heap_order_upto order_upto_def edge_ok_def)
  qed auto
  have dn: "down_ok cmp (data ?V) (Suc ?n) ?n" by (auto simp: down_ok_def)
  have "order_upto cmp (data (snd ?r)) (Suc ?n)"
    using bubble_up_order[OF swo _ _ ex] dn by simp
  moreover have "length (data (snd ?r)) = Suc ?n"
    using bubble_up_frame[where k = ?n and len = "Suc ?n" and h = ?h0 and cmp = cmp and p = p]
    by (simp add: same_entries_def dV)
  ultimately show ?thesis by (simp add: push_def Let_def heap_order_upto)
qed

lemma push_resize:
  "snd (bubble_up cmp (h\<lparr>data := data h @ [d]\<rparr>) (length (data h)) p) = push cmp h p"
proof -
  have "move (h\<lparr>data := data h @ [d]\<rparr>) p (length (data h)) =
      move (h\<lparr>data := data h @ [p]\<rparr>) p (length (data h))"
    by (simp add: move_def)
  then have "bubble_up cmp (h\<lparr>data := data h @ [d]\<rparr>) (length (data h)) p =
      bubble_up cmp (h\<lparr>data := data h @ [p]\<rparr>) (length (data h)) p"
    by (rule bubble_up_virtual) simp
  then show ?thesis by (simp add: push_def Let_def)
qed

subsection \<open>\<^verbatim>\<open>pop\<close> and \<^verbatim>\<open>erase\<close>\<close>

lemma move_idem: "move (move h p k) p k = move h p k"
  by (simp add: move_def)

lemma unlink_last:
  fixes h :: "('a, 'p) BinHeap"
  assumes ix: "indexed h" and len: "length (data h) = Suc n"
  shows "slots_ok (unlink h n) n"
proof -
  let ?a = "fst (data h ! n)"
  have an: "iim h ?a = int n" using ix len by (simp add: indexed_slots slots_ok_def)
  have item: "fst (data h ! i) \<noteq> ?a" if "i < n" for i
    using that len indexed_inj[OF ix, of i n] by auto
  show ?thesis
    unfolding slots_ok_def
  proof (rule conjI; intro allI impI)
    fix i assume "i < n"
    then show "iim (unlink h n) (fst (data (unlink h n) ! i)) = int i"
      using item ix len by (simp add: unlink_def indexed_slots slots_ok_def)
  next
    fix x assume x: "0 \<le> iim (unlink h n) x"
    then have xa: "x \<noteq> ?a" by (auto simp: unlink_def)
    then have e: "iim (unlink h n) x = iim h x" by (simp add: unlink_def)
    have t: "nat (iim h x) < Suc n" "fst (data h ! nat (iim h x)) = x"
      using x e ix len by (auto simp: indexed_def index_truthful_def)
    then have "nat (iim h x) \<noteq> n" using xa by auto
    then show "nat (iim (unlink h n) x) < n \<and> fst (data (unlink h n) ! nat (iim (unlink h n) x)) = x"
      using t unfolding e by (simp add: unlink_def)
  qed
qed

lemma relocate_virtual:
  fixes h :: "('a, 'p) BinHeap"
  assumes ix: "indexed h" and len: "length (data h) = Suc n" and k: "k < n"
  defines "V \<equiv> move (unlink h k) (data h ! n) k"
  shows "slots_ok V n" and "mset (take n (data V)) = mset (data h) - {#data h ! k#}"
    and "iim V (fst (data h ! k)) = State_val POST_HEAP"
    and "fst (data h ! k) \<notin> fst ` set (take n (data V))"
    and "\<And>x. iim h x < 0 \<Longrightarrow> iim V x = iim h x \<and> x \<notin> fst ` set (take n (data V))"
proof -
  let ?a = "fst (data h ! k)" and ?b = "fst (data h ! n)"
  have ak: "iim h ?a = int k" and bn: "iim h ?b = int n"
    using ix len k by (simp_all add: indexed_slots slots_ok_def)
  then have ab: "?a \<noteq> ?b" using k by auto
  have item: "fst (data h ! i) \<noteq> ?a \<and> fst (data h ! i) \<noteq> ?b" if "i < n" "i \<noteq> k" for i
    using that len k indexed_inj[OF ix, of i n] indexed_inj[OF ix, of i k] by auto
  have dV: "data V = (data h)[k := data h ! n]"
    and iV: "iim V = (iim h)(?a := - 2, ?b := int k)"
    by (simp_all add: V_def move_def unlink_def)
  have nthV: "data V ! i = (if i = k then data h ! n else data h ! i)" if "i < n" for i
    using that len by (simp add: dV nth_list_update)
  show ok: "slots_ok V n"
    unfolding slots_ok_def
  proof (rule conjI; intro allI impI)
    fix i assume i: "i < n"
    show "iim V (fst (data V ! i)) = int i"
    proof (cases "i = k")
      case True then show ?thesis using i by (simp add: nthV iV)
    next
      case False
      then show ?thesis using i item[OF i False] ix len by (simp add: nthV iV indexed_slots slots_ok_def)
    qed
  next
    fix x assume x: "0 \<le> iim V x"
    then have xa: "x \<noteq> ?a" using ab by (auto simp: iV)
    show "nat (iim V x) < n \<and> fst (data V ! nat (iim V x)) = x"
    proof (cases "x = ?b")
      case True then show ?thesis using k by (simp add: iV nthV)
    next
      case False
      then have e: "iim V x = iim h x" using xa by (simp add: iV)
      then have "nat (iim h x) < Suc n" "fst (data h ! nat (iim h x)) = x"
        using x ix len by (auto simp: indexed_slots slots_ok_def)
      moreover from this have "nat (iim h x) \<noteq> n" "nat (iim h x) \<noteq> k" using xa False by auto
      ultimately show ?thesis using e by (simp add: nthV)
    qed
  qed
  have "take n (data V) = (take n (data h))[k := data h ! n]"
    by (simp only: dV take_update_swap)
  then have m1: "mset (take n (data V)) = add_mset (data h ! n) (mset (take n (data h)) - {#data h ! k#})"
    using k len by (simp add: mset_update)
  have dh: "data h = take n (data h) @ [data h ! n]"
    using take_Suc_conv_app_nth[of n "data h"] len by simp
  have "mset (data h) = mset (take n (data h) @ [data h ! n])" by (rule arg_cong[OF dh])
  then have m2: "mset (data h) = add_mset (data h ! n) (mset (take n (data h)))" by simp
  have "take n (data h) ! k \<in> set (take n (data h))"
    using k len by (intro nth_mem) simp
  then have m3: "data h ! k \<in># mset (take n (data h))" using k by simp
  show "mset (take n (data V)) = mset (data h) - {#data h ! k#}"
    using m3 unfolding m1 m2 by simp
  show "iim V ?a = State_val POST_HEAP" using ab by (simp add: iV)
  have mem: "0 \<le> iim V x" if xin: "x \<in> fst ` set (take n (data V))" for x
  proof -
    obtain e where e: "e \<in> set (take n (data V))" "fst e = x" using xin by blast
    then obtain i where "i < length (take n (data V))" "take n (data V) ! i = e"
      by (auto simp: in_set_conv_nth)
    then have i: "i < n" "fst (data V ! i) = x" using e by auto
    then have "iim V x = int i" using ok by (auto simp: slots_ok_def)
    then show ?thesis by simp
  qed
  show "?a \<notin> fst ` set (take n (data V))"
    using mem[of ?a] ab by (auto simp: iV)
  show "iim V x = iim h x \<and> x \<notin> fst ` set (take n (data V))" if "iim h x < 0" for x
  proof -
    have "x \<noteq> ?a" "x \<noteq> ?b" using that ak bn by auto
    then have "iim V x = iim h x" by (simp add: iV)
    then show ?thesis using mem[of x] that by auto
  qed
qed

lemma data_unlink: "data (unlink h k) = data h"
  by (simp add: unlink_def)

lemma unlink_finish:
  fixes h :: "('a, 'p) BinHeap"
  assumes ix: "indexed h" and len: "length (data h) = Suc n"
  defines "h' \<equiv> (unlink h n)\<lparr>data := butlast (data (unlink h n))\<rparr>"
  shows "indexed h' \<and> mset (data h') = mset (data h) - {#data h ! n#} \<and>
         iim h' (fst (data h ! n)) = State_val POST_HEAP \<and>
         (\<forall>x. iim h x < 0 \<longrightarrow> iim h' x = iim h x)"
proof -
  have "indexed h'"
    unfolding h'_def using unlink_last[OF ix len] len by (intro slots_ok_butlast) (simp_all add: data_unlink)
  moreover have "data h = butlast (data h) @ [data h ! n]"
    using len by (metis append_butlast_last_id diff_Suc_1 last_conv_nth length_0_conv nat.distinct(1))
  then have "mset (data h) = add_mset (data h ! n) (mset (butlast (data h)))"
    by (metis mset.simps(1) mset.simps(2) mset_append union_mset_add_mset_right add.right_neutral)
  then have "mset (data h') = mset (data h) - {#data h ! n#}"
    by (simp add: h'_def data_unlink)
  moreover have "iim h' (fst (data h ! n)) = State_val POST_HEAP"
    by (simp add: h'_def unlink_def)
  moreover have "iim h' x = iim h x" if "iim h x < 0" for x
  proof -
    have "iim h (fst (data h ! n)) = int n" using indexed_nth[OF ix] len by simp
    then have "x \<noteq> fst (data h ! n)" using that by auto
    then show ?thesis by (simp add: h'_def unlink_def)
  qed
  ultimately show ?thesis by blast
qed

lemma relocate_finish:
  fixes h r :: "('a, 'p) BinHeap"
  assumes ix: "indexed h" and len: "length (data h) = Suc n" and k: "k < n"
    and same: "same_entries (move (unlink h k) (data h ! n) k) r n"
    and ok: "slots_ok (move (unlink h k) (data h ! n) k) n \<longrightarrow> slots_ok r n"
  defines "h' \<equiv> r\<lparr>data := butlast (data r)\<rparr>"
  shows "indexed h' \<and> mset (data h') = mset (data h) - {#data h ! k#} \<and>
         iim h' (fst (data h ! k)) = State_val POST_HEAP \<and>
         (\<forall>x. iim h x < 0 \<longrightarrow> iim h' x = iim h x)"
proof -
  let ?V = "move (unlink h k) (data h ! n) k"
  note rv = relocate_virtual[OF ix len k]
  have lr: "length (data r) = Suc n" using same len by (simp add: same_entries_def move_def unlink_def)
  then have bl: "butlast (data r) = take n (data r)" by (simp add: butlast_conv_take)
  have fr: "iim r x = iim ?V x" if "x \<notin> fst ` set (take n (data ?V))" for x
    using same that by (simp add: same_entries_def)
  have "indexed h'" unfolding h'_def using ok rv(1) lr by (intro slots_ok_butlast) simp_all
  moreover have "mset (data h') = mset (data h) - {#data h ! k#}"
    using same rv(2) by (simp add: h'_def bl same_entries_def)
  moreover have "iim h' (fst (data h ! k)) = State_val POST_HEAP"
    using fr[OF rv(4)] rv(3) by (simp add: h'_def)
  moreover have "iim h' x = iim h x" if "iim h x < 0" for x
    using rv(5)[OF that] fr[of x] by (simp add: h'_def)
  ultimately show ?thesis by blast
qed

lemma pop_unfold:
  "pop cmp h = (let n = length (data h) - 1;
       h2 = (if 0 < n then snd (bubble_down cmp (unlink h 0) 0 (data h ! n) n) else unlink h 0)
     in h2\<lparr>data := butlast (data h2)\<rparr>)"
  by (simp add: pop_def unlink_def Let_def)

lemma pop_indexed:
  fixes h :: "('a, 'p) BinHeap"
  assumes ix: "indexed h" and ne: "data h \<noteq> []"
  shows "indexed (pop cmp h) \<and> mset (data (pop cmp h)) = mset (data h) - {#data h ! 0#} \<and>
         iim (pop cmp h) (fst (data h ! 0)) = State_val POST_HEAP \<and>
         (\<forall>x. iim h x < 0 \<longrightarrow> iim (pop cmp h) x = iim h x)"
proof -
  obtain n where len: "length (data h) = Suc n" using ne by (cases "data h") auto
  show ?thesis
  proof (cases "0 < n")
    case False
    then have "pop cmp h = (unlink h n)\<lparr>data := butlast (data (unlink h n))\<rparr>"
      using len by (simp add: pop_unfold Let_def)
    then show ?thesis using unlink_finish[OF ix len] False by simp
  next
    case True
    let ?r = "snd (bubble_down cmp (unlink h 0) 0 (data h ! n) n)"
    have "pop cmp h = ?r\<lparr>data := butlast (data ?r)\<rparr>"
      using len True by (simp add: pop_unfold Let_def)
    moreover have "same_entries (move (unlink h 0) (data h ! n) 0) ?r n \<and>
        (slots_ok (move (unlink h 0) (data h ! n) 0) n \<longrightarrow> slots_ok ?r n)"
      using True len by (intro bubble_down_frame) (simp_all add: data_unlink)
    ultimately show ?thesis using relocate_finish[OF ix len True, of ?r] by simp
  qed
qed

lemma heap_order_prefix:
  assumes "heap_order cmp xs" "n \<le> length xs"
  shows "order_upto cmp xs n"
  using assms by (simp add: heap_order_upto order_upto_def)

lemma pop_order:
  fixes h :: "('a, 'p) BinHeap"
  assumes swo: "strict_weak_order cmp" and ord: "heap_order cmp (data h)" and ne: "data h \<noteq> []"
  shows "heap_order cmp (data (pop cmp h))"
proof -
  obtain n where len: "length (data h) = Suc n" using ne by (cases "data h") auto
  show ?thesis
  proof (cases "0 < n")
    case False
    then show ?thesis using len by (simp add: pop_unfold data_unlink heap_order_def Let_def)
  next
    case True
    let ?h1 = "unlink h 0"
    let ?r = "snd (bubble_down cmp ?h1 0 (data h ! n) n)"
    have dV: "data (move ?h1 (data h ! n) 0) = (data h)[0 := data h ! n]"
      by (simp add: move_def unlink_def)
    have "order_except cmp (data (move ?h1 (data h ! n) 0)) n 0"
      unfolding dV using True len by (intro order_except_update[OF swo] heap_order_prefix[OF ord]) simp_all
    moreover have "up_ok cmp (data (move ?h1 (data h ! n) 0)) 0" by (simp add: up_ok_def)
    ultimately have "order_upto cmp (data ?r) n"
      using True len by (intro bubble_down_order[OF swo]) (simp_all add: data_unlink)
    moreover have "length (data ?r) = Suc n"
      using bubble_down_frame[where k = 0 and len = n and h = ?h1 and cmp = cmp and p = "data h ! n"]
        True len by (simp add: same_entries_def dV data_unlink)
    ultimately have "heap_order cmp (butlast (data ?r))" by (rule order_upto_butlast)
    then show ?thesis using len True by (simp add: pop_unfold Let_def)
  qed
qed

lemma erase_unfold:
  "erase cmp h i = (let k = nat (iim h i); n = length (data h) - 1;
       h2 = (if k < n then relocated cmp h k n else unlink h k)
     in h2\<lparr>data := butlast (data h2)\<rparr>)"
  by (simp add: erase_def relocated_def unlink_def Let_def)

lemma relocated_cases:
  fixes h :: "('a, 'p) BinHeap" and cmp
  assumes k: "k < n" and len: "length (data h) = Suc n"
  defines "V \<equiv> move (unlink h k) (data h ! n) k"
  defines "r1 \<equiv> bubble_up cmp (unlink h k) k (data h ! n)"
  shows "(fst r1 \<noteq> k \<and> relocated cmp h k n = snd r1) \<or>
         (fst r1 = k \<and> snd r1 = V \<and> relocated cmp h k n = snd (bubble_down cmp V k (data h ! n) n))"
proof (cases "fst r1 = k")
  case False
  then show ?thesis by (simp add: relocated_def r1_def case_prod_unfold)
next
  case True
  have "snd r1 = V"
    using bubble_up_frame[where k = k and len = n and h = "unlink h k" and cmp = cmp and p = "data h ! n"]
      True k len by (simp add: r1_def V_def data_unlink)
  moreover have "data V ! n = data h ! n" using k by (simp add: V_def move_def unlink_def)
  ultimately show ?thesis using True by (simp add: relocated_def r1_def case_prod_unfold)
qed

lemma relocated_frame:
  fixes h :: "('a, 'p) BinHeap"
  assumes k: "k < n" and len: "length (data h) = Suc n"
  defines "V \<equiv> move (unlink h k) (data h ! n) k"
  shows "same_entries V (relocated cmp h k n) n \<and> (slots_ok V n \<longrightarrow> slots_ok (relocated cmp h k n) n)"
proof -
  let ?r1 = "bubble_up cmp (unlink h k) k (data h ! n)"
  have up: "same_entries V (snd ?r1) n \<and> (slots_ok V n \<longrightarrow> slots_ok (snd ?r1) n)"
    using bubble_up_frame[where k = k and len = n and h = "unlink h k" and cmp = cmp and p = "data h ! n"]
      k len by (simp add: V_def data_unlink)
  have lV: "n \<le> length (data V)" using len by (simp add: V_def move_def unlink_def)
  have dn: "same_entries V (snd (bubble_down cmp V k (data h ! n) n)) n \<and>
      (slots_ok V n \<longrightarrow> slots_ok (snd (bubble_down cmp V k (data h ! n) n)) n)"
    using bubble_down_frame[where k = k and len = n and h = V and cmp = cmp and p = "data h ! n"]
      k lV by (simp add: V_def move_idem)
  show ?thesis
    using relocated_cases[OF k len, where cmp = cmp] up dn unfolding V_def by auto
qed

lemma relocated_order:
  fixes h :: "('a, 'p) BinHeap"
  assumes swo: "strict_weak_order cmp" and ord: "heap_order cmp (data h)"
    and k: "k < n" and len: "length (data h) = Suc n"
  shows "order_upto cmp (data (relocated cmp h k n)) n"
proof -
  let ?p = "data h ! n"
  let ?V = "move (unlink h k) ?p k"
  let ?r1 = "bubble_up cmp (unlink h k) k ?p"
  have dV: "data ?V = (data h)[k := ?p]" by (simp add: move_def unlink_def)
  have lV: "n \<le> length (data ?V)" using len by (simp add: dV)
  have ex: "order_except cmp (data ?V) n k"
    unfolding dV using k len by (intro order_except_update[OF swo] heap_order_prefix[OF ord]) simp_all
  have up: "order_except cmp (data (snd ?r1)) n (fst ?r1) \<and> up_ok cmp (data (snd ?r1)) (fst ?r1) \<and>
      (fst ?r1 \<noteq> k \<longrightarrow> order_upto cmp (data (snd ?r1)) n)"
    using bubble_up_order[OF swo k _ ex] len by (simp add: data_unlink)
  from relocated_cases[OF k len, where cmp = cmp]
  show ?thesis
  proof (elim disjE conjE)
    assume "fst ?r1 \<noteq> k" "relocated cmp h k n = snd ?r1"
    then show ?thesis using up by simp
  next
    assume a: "fst ?r1 = k" "snd ?r1 = ?V" "relocated cmp h k n = snd (bubble_down cmp ?V k ?p n)"
    have "order_except cmp (data (move ?V ?p k)) n k" "up_ok cmp (data (move ?V ?p k)) k"
      using up a ex by (simp_all add: move_idem)
    then have "order_upto cmp (data (snd (bubble_down cmp ?V k ?p n))) n"
      using k lV by (intro bubble_down_order[OF swo])
    then show ?thesis using a by simp
  qed
qed

lemma erase_indexed:
  fixes h :: "('a, 'p) BinHeap"
  assumes ix: "indexed h" and pre: "0 \<le> iim h i"
  shows "indexed (erase cmp h i) \<and>
         mset (data (erase cmp h i)) = mset (data h) - {#(i, priorityOf h i)#} \<and>
         iim (erase cmp h i) i = State_val POST_HEAP \<and>
         (\<forall>x. iim h x < 0 \<longrightarrow> iim (erase cmp h i) x = iim h x)"
proof -
  let ?k = "nat (iim h i)"
  have kk: "?k < length (data h)" "data h ! ?k = (i, priorityOf h i)"
    using indexed_in_heap[OF ix pre] by simp_all
  then obtain n where len: "length (data h) = Suc n" by (cases "data h") auto
  show ?thesis
  proof (cases "?k < n")
    case True
    let ?r = "relocated cmp h ?k n"
    have "erase cmp h i = ?r\<lparr>data := butlast (data ?r)\<rparr>"
      using True len by (simp add: erase_unfold Let_def)
    then show ?thesis
      using relocate_finish[OF ix len True, of ?r] relocated_frame[OF True len, of cmp] kk(2)
      by simp
  next
    case False
    then have kn: "?k = n" using kk(1) len by simp
    then have "erase cmp h i = (unlink h n)\<lparr>data := butlast (data (unlink h n))\<rparr>"
      using len by (simp add: erase_unfold Let_def)
    then show ?thesis using unlink_finish[OF ix len] kk(2) kn by simp
  qed
qed

lemma erase_order:
  fixes h :: "('a, 'p) BinHeap"
  assumes swo: "strict_weak_order cmp" and ord: "heap_order cmp (data h)"
    and ix: "indexed h" and pre: "0 \<le> iim h i"
  shows "heap_order cmp (data (erase cmp h i))"
proof -
  let ?k = "nat (iim h i)"
  have kk: "?k < length (data h)" using indexed_in_heap[OF ix pre] by simp
  then obtain n where len: "length (data h) = Suc n" by (cases "data h") auto
  show ?thesis
  proof (cases "?k < n")
    case True
    let ?r = "relocated cmp h ?k n"
    have "length (data ?r) = Suc n"
      using relocated_frame[OF True len, of cmp] len by (simp add: same_entries_def move_def unlink_def)
    then have "heap_order cmp (butlast (data ?r))"
      using relocated_order[OF swo ord True len] by (intro order_upto_butlast)
    then show ?thesis using True len by (simp add: erase_unfold Let_def)
  next
    case False
    have "order_upto cmp (data h) n" using len by (intro heap_order_prefix[OF ord]) simp
    then have "heap_order cmp (butlast (data h))" using len by (rule order_upto_butlast)
    then show ?thesis using False len by (simp add: erase_unfold Let_def data_unlink)
  qed
qed

subsection \<open>\<^verbatim>\<open>decrease\<close>, \<^verbatim>\<open>increase\<close> and \<^verbatim>\<open>set\<close>\<close>

lemma update_virtual:
  fixes h :: "('a, 'p) BinHeap" and p
  assumes ix: "indexed h" and pre: "0 \<le> iim h i"
  defines "k \<equiv> nat (iim h i)"
  defines "V \<equiv> move h (i, p) k"
  shows "k < length (data h)" and "data h ! k = (i, priorityOf h i)"
    and "data V = (data h)[k := (i, p)]" and "iim V = iim h"
    and "slots_ok V (length (data h))"
    and "mset (data V) = add_mset (i, p) (mset (data h) - {#(i, priorityOf h i)#})"
    and "fst ` set (data V) = fst ` set (data h)"
proof -
  show k: "k < length (data h)" and dk: "data h ! k = (i, priorityOf h i)"
    using indexed_in_heap[OF ix pre] by (simp_all add: k_def)
  show dV: "data V = (data h)[k := (i, p)]" by (simp add: V_def move_def)
  have "iim h i = int k" using pre by (simp add: k_def)
  then show iV: "iim V = iim h" by (auto simp: V_def move_def fun_eq_iff)
  have fst_eq: "map fst (data V) = map fst (data h)"
    unfolding dV using k dk by (simp add: map_update) (metis fst_conv list_update_id map_update)
  show "slots_ok V (length (data h))"
  proof -
    have "fst (data V ! j) = fst (data h ! j)" if "j < length (data h)" for j
      using that k dk by (cases "j = k") (simp_all add: dV)
    then show ?thesis using ix k by (auto simp: indexed_slots slots_ok_def iV)
  qed
  show "mset (data V) = add_mset (i, p) (mset (data h) - {#(i, priorityOf h i)#})"
    unfolding dV using k dk by (simp add: mset_update)
  have "set (map fst (data V)) = set (map fst (data h))" by (simp only: fst_eq)
  then show "fst ` set (data V) = fst ` set (data h)" by simp
qed

lemma reposition_frame:
  fixes h r :: "('a, 'p) BinHeap"
  assumes ix: "indexed h" and pre: "0 \<le> iim h i"
    and same: "same_entries (move h (i, p) (nat (iim h i))) r (length (data h))"
    and ok: "slots_ok (move h (i, p) (nat (iim h i))) (length (data h)) \<longrightarrow> slots_ok r (length (data h))"
  shows "indexed r \<and>
         mset (data r) = add_mset (i, p) (mset (data h) - {#(i, priorityOf h i)#}) \<and>
         (\<forall>x. iim h x < 0 \<longrightarrow> iim r x = iim h x)"
proof -
  let ?V = "move h (i, p) (nat (iim h i))"
  note uv = update_virtual[OF ix pre]
  have lV: "length (data ?V) = length (data h)" by (simp add: uv(3))
  have lr: "length (data r) = length (data h)" using same lV by (simp add: same_entries_def)
  have "indexed r" using ok uv(5) lr by (simp add: indexed_slots)
  moreover have "mset (data r) = add_mset (i, p) (mset (data h) - {#(i, priorityOf h i)#})"
    using same_entries_mset[OF same] uv(6) by simp
  moreover have "iim r x = iim h x" if "iim h x < 0" for x
  proof -
    have "x \<notin> fst ` set (data h)" using indexed_not_stored[OF ix that] .
    then have "x \<notin> fst ` set (take (length (data h)) (data ?V))" using uv(7) lV by simp
    then have "iim r x = iim ?V x" using same by (simp add: same_entries_def)
    then show ?thesis by (simp add: uv(4))
  qed
  ultimately show ?thesis by blast
qed

lemma decrease_indexed:
  fixes h :: "('a, 'p) BinHeap"
  assumes ix: "indexed h" and pre: "0 \<le> iim h i"
  shows "indexed (decrease cmp h i p) \<and>
         mset (data (decrease cmp h i p)) = add_mset (i, p) (mset (data h) - {#(i, priorityOf h i)#}) \<and>
         (\<forall>x. iim h x < 0 \<longrightarrow> iim (decrease cmp h i p) x = iim h x)"
proof -
  have "nat (iim h i) < length (data h)" using update_virtual(1)[OF ix pre] .
  then show ?thesis
    using bubble_up_frame[where k = "nat (iim h i)" and len = "length (data h)" and h = h
        and cmp = cmp and p = "(i, p)"]
    unfolding decrease_def Let_def by (intro reposition_frame[OF ix pre]) simp_all
qed

lemma increase_indexed:
  fixes h :: "('a, 'p) BinHeap"
  assumes ix: "indexed h" and pre: "0 \<le> iim h i"
  shows "indexed (increase cmp h i p) \<and>
         mset (data (increase cmp h i p)) = add_mset (i, p) (mset (data h) - {#(i, priorityOf h i)#}) \<and>
         (\<forall>x. iim h x < 0 \<longrightarrow> iim (increase cmp h i p) x = iim h x)"
proof -
  have "nat (iim h i) < length (data h)" using update_virtual(1)[OF ix pre] .
  then show ?thesis
    using bubble_down_frame[where k = "nat (iim h i)" and len = "length (data h)" and h = h
        and cmp = cmp and p = "(i, p)"]
    unfolding increase_def Let_def by (intro reposition_frame[OF ix pre]) simp_all
qed

lemma decrease_order:
  fixes h :: "('a, 'p) BinHeap"
  assumes swo: "strict_weak_order cmp" and ord: "heap_order cmp (data h)"
    and ix: "indexed h" and pre: "0 \<le> iim h i" and dir: "\<not> cmp (priorityOf h i) p"
  shows "heap_order cmp (data (decrease cmp h i p))"
proof -
  let ?k = "nat (iim h i)" and ?n = "length (data h)"
  let ?V = "move h (i, p) ?k"
  let ?r = "bubble_up cmp h ?k (i, p)"
  note uv = update_virtual[OF ix pre]
  have ou: "order_upto cmp (data h) ?n" using ord by (simp add: heap_order_upto)
  have ex: "order_except cmp (data ?V) ?n ?k"
    unfolding uv(3) using uv(1) by (intro order_except_update[OF swo ou]) simp_all
  have dn: "down_ok cmp (data ?V) ?n ?k"
    unfolding down_ok_def
  proof (intro allI impI)
    fix c assume c: "c < ?n \<and> (c = 2 * ?k + 1 \<or> c = 2 * ?k + 2)"
    then have pc: "parent c = ?k" "0 < c" "c \<noteq> ?k" by (auto simp: parent_def)
    then have "\<not> less_pair cmp (data h ! c) (data h ! ?k)"
      using ou c by (auto simp: order_upto_def edge_ok_def)
    then have "\<not> cmp (snd (data h ! c)) p"
      using dir swo_negtrans[OF swo] by (auto simp: less_pair_def uv(2))
    then show "\<not> less_pair cmp (data ?V ! c) (data ?V ! ?k)"
      using pc uv(1) by (simp add: uv(3) less_pair_def)
  qed
  have "order_upto cmp (data (snd ?r)) ?n"
    using bubble_up_order[OF swo uv(1) _ ex] dn by simp
  moreover have "length (data (snd ?r)) = ?n"
    using bubble_up_frame[where k = ?k and len = ?n and h = h and cmp = cmp and p = "(i, p)"] uv(1)
    by (simp add: same_entries_def uv(3))
  ultimately show ?thesis by (simp add: decrease_def Let_def heap_order_upto)
qed

lemma increase_order:
  fixes h :: "('a, 'p) BinHeap"
  assumes swo: "strict_weak_order cmp" and ord: "heap_order cmp (data h)"
    and ix: "indexed h" and pre: "0 \<le> iim h i" and dir: "\<not> cmp p (priorityOf h i)"
  shows "heap_order cmp (data (increase cmp h i p))"
proof -
  let ?k = "nat (iim h i)" and ?n = "length (data h)"
  let ?V = "move h (i, p) ?k"
  let ?r = "bubble_down cmp h ?k (i, p) ?n"
  note uv = update_virtual[OF ix pre]
  have ou: "order_upto cmp (data h) ?n" using ord by (simp add: heap_order_upto)
  have ex: "order_except cmp (data ?V) ?n ?k"
    unfolding uv(3) using uv(1) by (intro order_except_update[OF swo ou]) simp_all
  have up: "up_ok cmp (data ?V) ?k"
  proof (cases "?k = 0")
    case True then show ?thesis by (simp add: up_ok_def)
  next
    case False
    then have pk: "parent ?k < ?k" by (intro parent_less) simp
    have "\<not> less_pair cmp (data h ! ?k) (data h ! parent ?k)"
      using ou False uv(1) by (auto simp: order_upto_def edge_ok_def)
    then have "\<not> cmp p (snd (data h ! parent ?k))"
      using dir swo_negtrans[OF swo] by (auto simp: less_pair_def uv(2))
    then show ?thesis using pk uv(1) by (simp add: up_ok_def edge_ok_def uv(3) less_pair_def)
  qed
  have "order_upto cmp (data (snd ?r)) ?n"
    using uv(1) ex up by (intro bubble_down_order[OF swo]) simp_all
  moreover have "length (data (snd ?r)) = ?n"
    using bubble_down_frame[where k = ?k and len = ?n and h = h and cmp = cmp and p = "(i, p)"] uv(1)
    by (simp add: same_entries_def uv(3))
  ultimately show ?thesis by (simp add: increase_def Let_def heap_order_upto)
qed

lemma set_prio_cases:
  "set_prio cmp h i p =
     (if iim h i < 0 then push cmp h (i, p)
      else if cmp p (priorityOf h i) then decrease cmp h i p
      else increase cmp h i p)"
  by (simp add: set_prio_def decrease_def increase_def priorityOf_def Let_def)

lemma set_prio_indexed:
  fixes h :: "('a, 'p) BinHeap"
  assumes ix: "indexed h"
  shows "indexed (set_prio cmp h i p)"
  using push_indexed[OF ix, of "(i, p)" cmp] decrease_indexed[OF ix, of i cmp p]
    increase_indexed[OF ix, of i cmp p]
  by (simp add: set_prio_cases)

lemma set_prio_order:
  fixes h :: "('a, 'p) BinHeap"
  assumes swo: "strict_weak_order cmp" and ord: "heap_order cmp (data h)" and ix: "indexed h"
  shows "heap_order cmp (data (set_prio cmp h i p))"
  using push_order[OF swo ord, of "(i, p)"] decrease_order[OF swo ord ix, of i p]
    increase_order[OF swo ord ix, of i p] swo_asym[OF swo, of p "priorityOf h i"]
  by (auto simp: set_prio_cases)

subsection \<open>\<^verbatim>\<open>replace\<close> and the state of an item\<close>

lemma replace_unfold:
  "replace h i j = \<lparr>data = (data h)[nat (iim h i) := (j, snd (data h ! nat (iim h i)))],
                    iim = (iim h)(i := iim h j, j := iim h i)\<rparr>"
  by (simp add: replace_def Let_def)

lemma replace_indexed:
  fixes h :: "('a, 'p) BinHeap"
  assumes ix: "indexed h" and pi: "0 \<le> iim h i" and pj: "iim h j < 0"
  shows "indexed (replace h i j)"
proof -
  let ?k = "nat (iim h i)" and ?n = "length (data h)"
  let ?r = "replace h i j"
  have k: "?k < ?n" "data h ! ?k = (i, priorityOf h i)" using indexed_in_heap[OF ix pi] by simp_all
  have ij: "i \<noteq> j" using pi pj by auto
  have dr: "data ?r = (data h)[?k := (j, priorityOf h i)]"
    and ir: "iim ?r = (iim h)(i := iim h j, j := int ?k)"
    using k pi by (simp_all add: replace_unfold)
  have nj: "fst (data h ! t) \<noteq> j" if "t < ?n" for t
    using indexed_nth[OF ix that] pj by auto
  have ni: "fst (data h ! t) \<noteq> i" if "t < ?n" "t \<noteq> ?k" for t
    using indexed_inj[OF ix that(1) k(1)] that(2) k(2) by auto
  show ?thesis
    unfolding indexed_slots slots_ok_def
  proof (rule conjI; intro allI impI)
    fix t assume t: "t < length (data ?r)"
    then have t': "t < ?n" by (simp add: dr)
    show "iim ?r (fst (data ?r ! t)) = int t"
    proof (cases "t = ?k")
      case True then show ?thesis using k by (simp add: dr ir)
    next
      case False
      then show ?thesis using nj[OF t'] ni[OF t' False] indexed_nth[OF ix t'] by (simp add: dr ir)
    qed
  next
    fix x assume x: "0 \<le> iim ?r x"
    show "nat (iim ?r x) < length (data ?r) \<and> fst (data ?r ! nat (iim ?r x)) = x"
    proof (cases "x = j")
      case True then show ?thesis using k pi by (simp add: dr ir)
    next
      case False
      then have xi: "x \<noteq> i" using x pj by (auto simp: ir)
      then have e: "iim ?r x = iim h x" using False by (simp add: ir)
      then have s: "nat (iim h x) < ?n" "data h ! nat (iim h x) = (x, priorityOf h x)"
        using indexed_in_heap[OF ix, of x] x by simp_all
      then have "nat (iim h x) \<noteq> ?k" using k(2) xi by auto
      then show ?thesis using s by (simp add: e dr)
    qed
  qed
qed

lemma replace_prios:
  fixes h :: "('a, 'p) BinHeap"
  shows "map snd (data (replace h i j)) = map snd (data h)"
  by (simp add: replace_unfold map_update) (metis list_update_id map_update nth_map linorder_not_less list_update_beyond length_map)

lemma heap_order_prios:
  assumes "map snd xs = map snd ys"
  shows "heap_order cmp xs = heap_order cmp ys"
proof -
  have len: "length xs = length ys" using assms by (metis length_map)
  have "snd (xs ! t) = snd (ys ! t)" if "t < length xs" for t
    using that assms len by (metis nth_map)
  moreover have "parent t < length xs" if "0 < t" "t < length xs" for t
    using parent_less[OF that(1)] that(2) by simp
  ultimately show ?thesis using len by (auto simp: heap_order_def less_pair_def)
qed

lemma replace_order: "heap_order cmp (data (replace h i j)) = heap_order cmp (data h)"
  by (rule heap_order_prios[OF replace_prios])

lemma state_IN_HEAP: "state h i = Some IN_HEAP \<longleftrightarrow> 0 \<le> iim h i"
  by (auto simp: state_def State_of_int_def Let_def)

lemma state_PRE_HEAP: "state h i = Some PRE_HEAP \<longleftrightarrow> iim h i = - 1"
  by (auto simp: state_def State_of_int_def Let_def)

lemma state_POST_HEAP: "state h i = Some POST_HEAP \<longleftrightarrow> iim h i = - 2"
  by (auto simp: state_def State_of_int_def Let_def)

lemma mark_indexed:
  fixes h :: "('a, 'p) BinHeap"
  assumes ix: "indexed h" and neg: "iim h i < 0" "v < 0"
  shows "indexed (h\<lparr>iim := (iim h)(i := v)\<rparr>)"
proof -
  have "fst (data h ! t) \<noteq> i" if "t < length (data h)" for t
    using indexed_nth[OF ix that] neg(1) by auto
  then show ?thesis using ix neg by (auto simp: indexed_slots slots_ok_def)
qed

lemma set_state_unfold:
  "set_state cmp h i st =
     (if st = IN_HEAP then h
      else (let h1 = (if 0 \<le> iim h i then erase cmp h i else h)
            in h1\<lparr>iim := (iim h1)(i := State_val st)\<rparr>))"
  by (cases st) (simp_all add: set_state_def state_IN_HEAP)

lemma set_state_indexed:
  fixes h :: "('a, 'p) BinHeap"
  assumes ix: "indexed h"
  shows "indexed (set_state cmp h i st)"
proof (cases "st = IN_HEAP")
  case True then show ?thesis using ix by (simp add: set_state_unfold)
next
  case False
  then have v: "State_val st < 0" by (cases st) simp_all
  show ?thesis
  proof (cases "0 \<le> iim h i")
    case True
    have "indexed (erase cmp h i)" "iim (erase cmp h i) i < 0"
      using erase_indexed[OF ix True, of cmp] by simp_all
    then show ?thesis using mark_indexed[OF _ _ v] True False by (simp add: set_state_unfold Let_def)
  next
    case neg: False
    then show ?thesis using mark_indexed[OF ix _ v, of i] False by (simp add: set_state_unfold Let_def)
  qed
qed

lemma set_state_order:
  fixes h :: "('a, 'p) BinHeap"
  assumes swo: "strict_weak_order cmp" and ord: "heap_order cmp (data h)" and ix: "indexed h"
  shows "heap_order cmp (data (set_state cmp h i st))"
  using ord erase_order[OF swo ord ix, of i] by (simp add: set_state_unfold Let_def)

subsection \<open>Sequences of calls\<close>

lemma exec_indexed:
  fixes h :: "('a, 'p) BinHeap"
  assumes "indexed h" "pre cmp h c"
  shows "indexed (exec cmp h c)"
proof (cases c)
  case (Push i p) then show ?thesis using assms push_indexed[of h "(i, p)" cmp] by simp
next
  case Pop then show ?thesis using assms pop_indexed[of h cmp] by simp
next
  case (Erase i) then show ?thesis using assms erase_indexed[of h i cmp] by simp
next
  case (Set i p) then show ?thesis using assms set_prio_indexed by simp
next
  case (Decrease i p) then show ?thesis using assms decrease_indexed[of h i cmp p] by simp
next
  case (Increase i p) then show ?thesis using assms increase_indexed[of h i cmp p] by simp
next
  case (Replace i j) then show ?thesis using assms replace_indexed[of h i j] by simp
next
  case (SetState i st) then show ?thesis using assms set_state_indexed by simp
qed

lemma exec_order:
  fixes h :: "('a, 'p) BinHeap"
  assumes swo: "strict_weak_order cmp" and ord: "heap_order cmp (data h)"
    and ix: "indexed h" and pre: "pre cmp h c"
  shows "heap_order cmp (data (exec cmp h c))"
proof (cases c)
  case (Push i p) then show ?thesis using push_order[OF swo ord] by simp
next
  case Pop then show ?thesis using pre pop_order[OF swo ord] by simp
next
  case (Erase i) then show ?thesis using pre erase_order[OF swo ord ix] by simp
next
  case (Set i p) then show ?thesis using set_prio_order[OF swo ord ix] by simp
next
  case (Decrease i p) then show ?thesis using pre decrease_order[OF swo ord ix] by simp
next
  case (Increase i p) then show ?thesis using pre increase_order[OF swo ord ix] by simp
next
  case (Replace i j) then show ?thesis using ord by (simp add: replace_order)
next
  case (SetState i st) then show ?thesis using set_state_order[OF swo ord ix] by simp
qed

lemma indexed_fresh: "indexed fresh"
  by (simp add: fresh_def new_heap_def indexed_def index_coherent_def index_truthful_def)

lemma run_indexed:
  fixes h :: "('a, 'p) BinHeap"
  assumes "indexed h" "run cmp h cs = Some h'"
  shows "indexed h'"
  using assms
proof (induction cs arbitrary: h)
  case Nil
  then show ?case by simp
next
  case (Cons c cs)
  then have p: "pre cmp h c" and r: "run cmp (exec cmp h c) cs = Some h'"
    by (auto split: if_splits)
  show ?case by (rule Cons.IH[OF exec_indexed[OF Cons.prems(1) p] r])
qed

lemma run_order:
  fixes h :: "('a, 'p) BinHeap"
  assumes "strict_weak_order cmp" "heap_order cmp (data h)" "indexed h" "run cmp h cs = Some h'"
  shows "heap_order cmp (data h')"
  using assms
proof (induction cs arbitrary: h)
  case Nil
  then show ?case by simp
next
  case (Cons c cs)
  then have p: "pre cmp h c" and r: "run cmp (exec cmp h c) cs = Some h'"
    by (auto split: if_splits)
  show ?case
    by (rule Cons.IH[OF Cons.prems(1) exec_order[OF Cons.prems(1,2,3) p]
          exec_indexed[OF Cons.prems(3) p] r])
qed

lemma heap_order_fresh: "heap_order cmp (data fresh)"
  by (simp add: fresh_def new_heap_def heap_order_def)

lemma run_foldl:
  assumes "run cmp h cs = Some h'"
  shows "h' = foldl (exec cmp) h cs"
  using assms by (induction cs arbitrary: h) (auto split: if_splits)

subsection \<open>Lookup, drain and the equivalence of \<^verbatim>\<open>set\<close>\<close>

lemma indexed_distinct:
  assumes "indexed h"
  shows "distinct (map fst (data h))"
  unfolding distinct_conv_nth
proof (intro allI impI)
  fix s t assume "s < length (map fst (data h))" "t < length (map fst (data h))" "s \<noteq> t"
  then show "map fst (data h) ! s \<noteq> map fst (data h) ! t"
    using indexed_inj[OF assms, of s t] by auto
qed

lemma indexed_scan:
  assumes ix: "indexed h" and x: "0 \<le> iim h x"
  shows "map_of (data h) x = Some (priorityOf h x)"
proof -
  have "(x, priorityOf h x) \<in> set (data h)"
    using indexed_in_heap[OF ix x] by (metis nth_mem)
  then show ?thesis using indexed_distinct[OF ix] by simp
qed

lemma indexed_entry:
  assumes "indexed h" "(x, q) \<in> set (data h)"
  shows "0 \<le> iim h x \<and> priorityOf h x = q"
  using indexed_stored[OF assms] by (auto simp: priorityOf_def)

lemma reposition_effect:
  fixes h h' :: "('a, 'p) BinHeap"
  assumes ix: "indexed h" and pre: "0 \<le> iim h i"
    and eff: "indexed h' \<and> mset (data h') = add_mset (i, p) (mset (data h) - {#(i, priorityOf h i)#}) \<and>
         (\<forall>x. iim h x < 0 \<longrightarrow> iim h' x = iim h x)"
  shows "(\<forall>x. state h' x = state h x) \<and> priorityOf h' i = p \<and>
         (\<forall>x. x \<noteq> i \<longrightarrow> state h x = Some IN_HEAP \<longrightarrow> priorityOf h' x = priorityOf h x)"
proof -
  have ix': "indexed h'" and ms: "mset (data h') = add_mset (i, p) (mset (data h) - {#(i, priorityOf h i)#})"
    and fr: "\<And>x. iim h x < 0 \<Longrightarrow> iim h' x = iim h x"
    using eff by simp_all
  have "(i, p) \<in># mset (data h')" unfolding ms by simp
  then have ip: "0 \<le> iim h' i \<and> priorityOf h' i = p" using indexed_entry[OF ix'] by simp
  have other: "0 \<le> iim h' x \<and> priorityOf h' x = priorityOf h x" if "x \<noteq> i" "0 \<le> iim h x" for x
  proof -
    have "(x, priorityOf h x) \<in># mset (data h)"
      using indexed_in_heap[OF ix that(2)] by (metis nth_mem set_mset_mset)
    then have "(x, priorityOf h x) \<in># mset (data h) - {#(i, priorityOf h i)#}"
      using that(1) by (auto simp: in_diff_count)
    then have "(x, priorityOf h x) \<in># mset (data h')" unfolding ms by simp
    then show ?thesis using indexed_entry[OF ix'] by simp
  qed
  have "state h' x = state h x" for x
  proof (cases "0 \<le> iim h x")
    case True
    then have "0 \<le> iim h' x" using other[of x] ip by (cases "x = i") simp_all
    then show ?thesis using True by (simp add: state_def)
  next
    case False
    then show ?thesis using fr[of x] by (simp add: state_def)
  qed
  then show ?thesis using ip other by (simp add: state_IN_HEAP)
qed

lemma push_in_heap:
  fixes h :: "('a, 'p) BinHeap"
  assumes "indexed h" "iim h i < 0"
  shows "0 \<le> iim (push cmp h (i, p)) i"
proof -
  have e: "indexed (push cmp h (i, p))" "mset (data (push cmp h (i, p))) = mset (data h) + {#(i, p)#}"
    using push_indexed[OF assms(1), of "(i, p)" cmp] assms(2) by simp_all
  have "(i, p) \<in># mset (data (push cmp h (i, p)))" unfolding e(2) by simp
  then show ?thesis using indexed_entry[OF e(1)] by simp
qed

lemma root_least:
  assumes swo: "strict_weak_order cmp" and ord: "heap_order cmp xs" and i: "i < length xs"
  shows "\<not> less_pair cmp (xs ! i) (xs ! 0)"
  using i
proof (induction i rule: less_induct)
  case (less i)
  show ?case
  proof (cases "i = 0")
    case True then show ?thesis using swo_irrefl[OF swo] by (simp add: less_pair_def)
  next
    case False
    then have pi: "parent i < i" by (intro parent_less) simp
    then have "\<not> less_pair cmp (xs ! parent i) (xs ! 0)" using less by simp
    moreover have "\<not> less_pair cmp (xs ! i) (xs ! parent i)"
      using ord False less.prems by (simp add: heap_order_def)
    ultimately show ?thesis using swo_negtrans[OF swo] by (auto simp: less_pair_def)
  qed
qed

lemma push_all_invar:
  fixes h :: "('a, 'p) BinHeap"
  assumes swo: "strict_weak_order cmp"
    and "heap_order cmp (data h)" "indexed h"
    and "distinct (map fst es)" "\<forall>e\<in>set es. iim h (fst e) < 0"
  shows "heap_order cmp (data (push_all cmp h es)) \<and> indexed (push_all cmp h es) \<and>
         mset (data (push_all cmp h es)) = mset (data h) + mset es"
  using assms(2-)
proof (induction es arbitrary: h)
  case Nil
  then show ?case by simp
next
  case (Cons e es)
  have ne: "iim h (fst e) < 0" using Cons.prems(4) by simp
  note pe = push_indexed[OF Cons.prems(2) ne, of cmp]
  have "\<forall>x\<in>set es. iim (push cmp h e) (fst x) < 0"
  proof
    fix x assume x: "x \<in> set es"
    then have "fst x \<in> fst ` set es" by (rule imageI)
    moreover have "fst e \<notin> fst ` set es" using Cons.prems(3) by simp
    ultimately have "fst x \<noteq> fst e" by metis
    then have "fst x \<noteq> fst e" .
    moreover have "iim h (fst x) < 0" using x Cons.prems(4) by simp
    ultimately show "iim (push cmp h e) (fst x) < 0" using pe by simp
  qed
  moreover have "distinct (map fst es)" using Cons.prems(3) by simp
  ultimately have "heap_order cmp (data (push_all cmp (push cmp h e) es)) \<and>
      indexed (push_all cmp (push cmp h e) es) \<and>
      mset (data (push_all cmp (push cmp h e) es)) = mset (data (push cmp h e)) + mset es"
    using pe push_order[OF swo Cons.prems(1), of e] by (intro Cons.IH) simp_all
  then show ?case using pe by simp
qed

lemma drain_sorted:
  fixes h :: "('a, 'p) BinHeap"
  assumes swo: "strict_weak_order cmp"
    and "heap_order cmp (data h)" "indexed h" "length (data h) = n"
  shows "sorted_wrt (\<lambda>a b. \<not> cmp (snd b) (snd a)) (fst (drain cmp h n)) \<and>
         mset (fst (drain cmp h n)) = mset (data h) \<and> data (snd (drain cmp h n)) = []"
  using assms(2-)
proof (induction n arbitrary: h)
  case 0
  then show ?case by simp
next
  case (Suc n)
  have ne: "data h \<noteq> []" using Suc.prems(3) by auto
  note pi = pop_indexed[OF Suc.prems(2) ne, of cmp]
  have po: "heap_order cmp (data (pop cmp h))" by (rule pop_order[OF swo Suc.prems(1) ne])
  have ms: "mset (data (pop cmp h)) = mset (data h) - {#data h ! 0#}" using pi by simp
  have hd_in: "data h ! 0 \<in># mset (data h)" using ne by simp
  have "size (mset (data (pop cmp h))) = n"
    unfolding ms using Suc.prems(3) hd_in by (simp add: size_Diff_singleton)
  then have len: "length (data (pop cmp h)) = n" by simp
  note IH = Suc.IH[OF po conjunct1[OF pi] len]
  let ?es = "fst (drain cmp (pop cmp h) n)"
  have d: "drain cmp h (Suc n) = ((top h, prio h) # ?es, snd (drain cmp (pop cmp h) n))"
    by (simp add: case_prod_unfold)
  have e0: "(top h, prio h) = data h ! 0" by (simp add: top_def prio_def)
  have least: "\<not> cmp (snd y) (prio h)" if "y \<in> set ?es" for y
  proof -
    have "y \<in># mset (data (pop cmp h))" using that IH by (metis set_mset_mset)
    then have "y \<in> set (data h)" unfolding ms by (metis in_diffD set_mset_mset)
    then obtain t where "t < length (data h)" "data h ! t = y" by (auto simp: in_set_conv_nth)
    then show ?thesis using root_least[OF swo Suc.prems(1), of t] by (simp add: less_pair_def prio_def)
  qed
  have "mset ((top h, prio h) # ?es) = mset (data h)"
    using IH ms hd_in by (simp add: e0)
  then show ?case unfolding d fst_conv snd_conv using IH least by simp
qed

lemma set_prio_decrease:
  fixes h :: "('a, 'p) BinHeap"
  assumes swo: "strict_weak_order cmp" and ord: "heap_order cmp (data h)" and ix: "indexed h"
    and pre: "0 \<le> iim h i" and dir: "\<not> cmp (priorityOf h i) p"
  shows "set_prio cmp h i p = decrease cmp h i p"
proof (cases "cmp p (priorityOf h i)")
  case True
  then show ?thesis using pre by (simp add: set_prio_cases)
next
  case False
  let ?k = "nat (iim h i)" and ?n = "length (data h)"
  have k: "?k < ?n" "data h ! ?k = (i, priorityOf h i)" using indexed_in_heap[OF ix pre] by simp_all
  have ou: "order_upto cmp (data h) ?n" using ord by (simp add: heap_order_upto)
  have up: "bubble_up cmp h ?k (i, p) = (?k, move h (i, p) ?k)"
  proof (rule bubble_up_stop)
    have "\<not> less_pair cmp (i, p) (data h ! parent ?k)" if "0 < ?k"
    proof -
      have "\<not> less_pair cmp (data h ! ?k) (data h ! parent ?k)"
        using ou that k(1) by (auto simp: order_upto_def edge_ok_def)
      then show ?thesis using False swo_negtrans[OF swo] by (auto simp: less_pair_def k(2))
    qed
    then show "\<not> (0 < ?k \<and> less_pair cmp (i, p) (data h ! parent ?k))" by blast
  qed
  have down: "bubble_down cmp h ?k (i, p) ?n = (?k, move h (i, p) ?k)"
  proof (rule bubble_down_stop, intro allI impI)
    fix c assume c: "c < ?n" "c = 2 * ?k + 1 \<or> c = 2 * ?k + 2"
    then have "parent c = ?k" "0 < c" by (auto simp: parent_def)
    then have "\<not> less_pair cmp (data h ! c) (data h ! ?k)"
      using ou c(1) by (auto simp: order_upto_def edge_ok_def)
    then show "\<not> less_pair cmp (data h ! c) (i, p)"
      using dir swo_negtrans[OF swo] by (auto simp: less_pair_def k(2))
  qed
  show ?thesis using False pre by (simp add: set_prio_cases decrease_def increase_def up down)
qed

lemma exec_as_set:
  fixes h :: "('a, 'p) BinHeap"
  assumes "strict_weak_order cmp" "heap_order cmp (data h)" "indexed h" "pre cmp h c"
  shows "pre cmp h (as_set c) \<and> exec cmp h (as_set c) = exec cmp h c"
proof (cases c)
  case (Decrease i p)
  then show ?thesis using assms set_prio_decrease[OF assms(1,2,3), of i p] by simp
next
  case (Increase i p)
  then show ?thesis using assms by (simp add: set_prio_cases)
qed (use assms in simp_all)

lemma run_as_set:
  fixes h :: "('a, 'p) BinHeap"
  assumes "strict_weak_order cmp" "heap_order cmp (data h)" "indexed h" "run cmp h cs = Some h'"
  shows "run cmp h (map as_set cs) = Some h'"
  using assms
proof (induction cs arbitrary: h)
  case Nil
  then show ?case by simp
next
  case (Cons c cs)
  then have p: "pre cmp h c" and r: "run cmp (exec cmp h c) cs = Some h'"
    by (auto split: if_splits)
  have "run cmp (exec cmp h c) (map as_set cs) = Some h'"
    by (rule Cons.IH[OF Cons.prems(1) exec_order[OF Cons.prems(1,2,3) p]
          exec_indexed[OF Cons.prems(3) p] r])
  then show ?case using exec_as_set[OF Cons.prems(1,2,3) p] by simp
qed

lemma bubble_down_above:
  fixes h :: "('a, 'p) BinHeap"
  assumes k: "k < len" "len \<le> length (data h)" and t: "t < k"
  shows "data (snd (bubble_down cmp h k p len)) ! t = data h ! t"
proof -
  let ?I = "\<lambda>j V. k \<le> j \<and> data V ! t = data h ! t"
  have "?I (fst (bubble_down cmp h k p len)) (snd (bubble_down cmp h k p len))"
  proof (rule bubble_down_rule[where I = ?I and Q = ?I, OF k])
    show "?I k (move h p k)" using t by (simp add: move_def)
  next
    fix V :: "('a, 'p) BinHeap" and j c
    assume I: "?I j V" and ch: "chosen cmp (data V) len j c"
    have "j < c" using ch by (auto simp: chosen_def)
    then show "?I c (swap_slots V j c)" using I t by (simp add: data_swap_slots)
  qed simp
  then show ?thesis by simp
qed

lemma pop_new_root:
  fixes h :: "('a, 'p) BinHeap"
  assumes len: "3 < length (data h)"
    and c: "c = pick_child cmp (data h) 2"
    and lt: "less_pair cmp (data h ! c) (data h ! (length (data h) - 1))"
  shows "data (pop cmp h) ! 0 = data h ! c"
proof -
  let ?n = "length (data h) - 1"
  let ?p = "data h ! ?n"
  let ?h1 = "unlink h 0"
  have ne: "data h \<noteq> []" using len by auto
  have c12: "c = 1 \<or> c = 2" using c by (auto simp: pick_child_def)
  have sc: "second_child 0 < ?n" using len by (simp add: second_child_def)
  have "second_child 0 = 2" by (simp add: second_child_def)
  then have pc: "pick_child cmp (data h) (second_child 0) = c"
    using c by simp
  have "bubble_down cmp ?h1 0 ?p ?n =
      (let child = pick_child cmp (data ?h1) (second_child 0) in
       if \<not> less_pair cmp (data ?h1 ! child) ?p then (0, move ?h1 ?p 0)
       else bubble_down cmp (move ?h1 (data ?h1 ! child) 0) child ?p ?n)"
    by (rule bubble_down_pair[OF sc])
  then have bd: "bubble_down cmp ?h1 0 ?p ?n = bubble_down cmp (move ?h1 (data h ! c) 0) c ?p ?n"
    unfolding data_unlink pc Let_def using lt by simp
  have "data (snd (bubble_down cmp (move ?h1 (data h ! c) 0) c ?p ?n)) ! 0 =
      data (move ?h1 (data h ! c) 0) ! 0"
    using c12 len by (intro bubble_down_above) (auto simp: move_def data_unlink)
  also have "\<dots> = data h ! c" using ne by (simp add: move_def data_unlink)
  finally have r0: "data (snd (bubble_down cmp ?h1 0 ?p ?n)) ! 0 = data h ! c" using bd by simp
  have lr: "length (data (snd (bubble_down cmp ?h1 0 ?p ?n))) = length (data h)"
    using bubble_down_frame[where k = 0 and len = ?n and h = ?h1 and cmp = cmp and p = ?p] len
    by (simp add: same_entries_def move_def data_unlink)
  have "pop cmp h = (snd (bubble_down cmp ?h1 0 ?p ?n))\<lparr>data := butlast (data (snd (bubble_down cmp ?h1 0 ?p ?n)))\<rparr>"
    using len by (simp add: pop_unfold Let_def)
  then show ?thesis using r0 lr len ne by (simp add: nth_butlast)
qed

subsection \<open>The concrete heaps\<close>

lemma swo_less_nat: "strict_weak_order ((<) :: nat \<Rightarrow> nat \<Rightarrow> bool)"
  by (auto simp: strict_weak_order_def)

lemma mixed_heap_run: "run (<) fresh calls1 = Some mixed_heap"
proof -
  have "map_option data (run (<) fresh calls1) = Some [(6, 2), (5, 7), (4, 40 :: nat)]"
    unfolding calls1_def by code_simp
  then obtain h :: "(nat, nat) BinHeap" where h: "run (<) fresh calls1 = Some h" by auto
  show ?thesis using run_foldl[OF h] h by (simp add: mixed_heap_def)
qed

lemma mixed_heap_data: "data mixed_heap = [(6, 2), (5, 7), (4, 40)]"
  unfolding mixed_heap_def calls1_def by code_simp

lemma demo_heap_run: "run (<) fresh demo_calls = Some demo_heap"
proof -
  have "iim (fresh :: (nat, nat) BinHeap) 1 < 0"
    "iim (push (<) fresh (1 :: nat, 1 :: nat)) 2 < 0"
    "iim (push (<) (push (<) fresh (1 :: nat, 1 :: nat)) (2, 10)) 3 < 0"
    "iim (push (<) (push (<) (push (<) fresh (1 :: nat, 1 :: nat)) (2, 10)) (3, 2)) 4 < 0"
    "iim (push (<) (push (<) (push (<) (push (<) fresh (1 :: nat, 1 :: nat)) (2, 10)) (3, 2)) (4, 11)) 5 < 0"
    "iim (push (<) (push (<) (push (<) (push (<) (push (<) fresh (1 :: nat, 1 :: nat)) (2, 10)) (3, 2)) (4, 11)) (5, 12)) 6 < 0"
    by code_simp+
  then show ?thesis by (simp add: demo_calls_def demo_heap_def)
qed

lemma demo_heap_data:
  "data demo_heap = [(1, 1), (2, 10), (3, 2), (4, 11), (5, 12), (6, 3)]"
  unfolding demo_heap_def by code_simp

lemma demo_heap_indexed: "indexed demo_heap"
  by (rule run_indexed[OF indexed_fresh demo_heap_run])

lemma demo_heap_order: "heap_order (<) (data demo_heap)"
  by (rule run_order[OF swo_less_nat heap_order_fresh indexed_fresh demo_heap_run])

lemma changed_heap_run: "run (<) demo_heap change_calls = Some changed_heap"
proof -
  have "map_option data (run (<) demo_heap change_calls) =
      Some [(4, 0), (2, 10), (6, 1), (1, 20), (5, 12), (3, 2)]"
    unfolding demo_heap_def change_calls_def by code_simp
  then obtain h where h: "run (<) demo_heap change_calls = Some h" by auto
  show ?thesis using run_foldl[OF h] h by (simp add: changed_heap_def)
qed

lemma changed_heap_data:
  "data changed_heap = [(4, 0), (2, 10), (6, 1), (1, 20), (5, 12), (3, 2)]"
  unfolding changed_heap_def demo_heap_def change_calls_def by code_simp

lemma tie_heap5_data: "data tie_heap5 = [(1, 0), (2, 1), (3, 1), (4, 2), (5, 3)]"
  unfolding tie_heap5_def tie_heap_def by code_simp

section \<open>The claims\<close>

text \<open>
  C1: starting from the empty heap whose map holds PRE for every item, after any sequence
  of push / pop / erase / set / decrease / increase / replace calls (and calls of the state
  override) that each satisfy their precondition, no entry at a non-root slot compares less
  than the entry at its parent slot.
\<close>

theorem heap_order_invariant:
  assumes "strict_weak_order cmp" and "run cmp fresh cs = Some h"
  shows "heap_order cmp (data h)"
  by (rule run_order[OF assms(1) heap_order_fresh indexed_fresh assms(2)])

theorem heap_order_invariant_witness:
  "strict_weak_order ((<) :: nat \<Rightarrow> nat \<Rightarrow> bool) \<and>
   run (<) fresh calls1 = Some mixed_heap \<and>
   data mixed_heap = [(6, 2), (5, 7), (4, 40)] \<and>
   heap_order (<) (data mixed_heap)"
  by (intro conjI swo_less_nat mixed_heap_run mixed_heap_data
      heap_order_invariant[OF swo_less_nat mixed_heap_run])

text \<open>
  C2: in every heap reached by calls that satisfy their preconditions, the map sends the
  item of slot \<open>i\<close> to \<open>i\<close>, for every slot; the stored items are exactly the items
  whose state reads IN_HEAP; and for each of them \<^verbatim>\<open>operator[]\<close> returns the priority that
  a scan of the entries for that item finds (\<open>map_of\<close> is the scan).  After \<^verbatim>\<open>clear()\<close>
  there is no slot left to check.
\<close>

theorem index_coherence_invariant:
  assumes "run cmp fresh cs = Some h"
  shows "index_coherent h \<and>
         (\<forall>x. x \<in> fst ` set (data h) \<longleftrightarrow> state h x = Some IN_HEAP) \<and>
         (\<forall>x. state h x = Some IN_HEAP \<longrightarrow> map_of (data h) x = Some (priorityOf h x)) \<and>
         index_coherent (clear h)"
proof -
  have ix: "indexed h" by (rule run_indexed[OF indexed_fresh assms])
  have "x \<in> fst ` set (data h) \<longleftrightarrow> state h x = Some IN_HEAP" for x
  proof
    assume "x \<in> fst ` set (data h)"
    then show "state h x = Some IN_HEAP"
      using indexed_stored[OF ix] by (auto simp: state_IN_HEAP)
  next
    assume "state h x = Some IN_HEAP"
    then have "0 \<le> iim h x" by (simp add: state_IN_HEAP)
    then have "nat (iim h x) < length (data h)" "fst (data h ! nat (iim h x)) = x"
      using indexed_in_heap[OF ix] by simp_all
    then show "x \<in> fst ` set (data h)" by (metis imageI nth_mem)
  qed
  moreover have "map_of (data h) x = Some (priorityOf h x)" if "state h x = Some IN_HEAP" for x
    using indexed_scan[OF ix] that by (simp add: state_IN_HEAP)
  moreover have "index_coherent (clear h)" by (simp add: index_coherent_def clear_def)
  ultimately show ?thesis using ix by (simp add: indexed_def)
qed

theorem index_coherence_invariant_witness:
  "run (<) fresh calls1 = Some mixed_heap \<and>
   data mixed_heap = [(6, 2), (5, 7), (4, 40)] \<and>
   map (iim mixed_heap) [6, 5, 4] = [0, 1, 2] \<and>
   index_coherent mixed_heap \<and>
   5 \<in> fst ` set (data mixed_heap) \<and> state mixed_heap 5 = Some IN_HEAP \<and>
   map_of (data mixed_heap) 5 = Some (priorityOf mixed_heap 5) \<and>
   priorityOf mixed_heap 5 = 7 \<and>
   index_coherent (clear mixed_heap)"
proof -
  note T = index_coherence_invariant[OF mixed_heap_run]
  have m: "map (iim mixed_heap) [6, 5, 4] = [0, 1, 2]"
    and s: "state mixed_heap 5 = Some IN_HEAP" and q: "priorityOf mixed_heap 5 = 7"
    unfolding mixed_heap_def calls1_def by code_simp+
  have "5 \<in> fst ` set (data mixed_heap)" using T s by blast
  moreover have "map_of (data mixed_heap) 5 = Some (priorityOf mixed_heap 5)" using T s by blast
  ultimately show ?thesis
    using T by (intro conjI mixed_heap_run mixed_heap_data m s q) blast+
qed

text \<open>
  C3 as stated fails: the root of \<open>tie_heap\<close> has the children (2, 1) and (3, 1), neither
  of which precedes the other; the loop keeps the right child, and \<^verbatim>\<open>pop()\<close> brings the
  right child's item 3 to the top, not the left child's item 2.
\<close>

theorem tie_prefers_right_counterexample:
  "data tie_heap = [(1, 0), (2, 1), (3, 1), (4, 2)] \<and>
   \<not> less_pair (<) (data tie_heap ! 2) (data tie_heap ! 1) \<and>
   \<not> less_pair (<) (data tie_heap ! 1) (data tie_heap ! 2) \<and>
   pick_child (<) (data tie_heap) (second_child 0) = 2 \<and>
   data (pop (<) tie_heap) = [(3, 1), (2, 1), (4, 2)] \<and>
   top (pop (<) tie_heap) = 3"
  unfolding tie_heap_def by code_simp

text \<open>
  C3, amended: when the hole has a full pair of children, bubble-down compares the moved
  entry with the left child exactly when the left child strictly precedes the right child,
  and with the right child otherwise, which includes the case that neither child precedes
  the other; that child is the one moved up when it precedes the moved entry.  For
  \<^verbatim>\<open>pop()\<close> on a heap of four or more entries: when the child so chosen precedes the last
  entry, it is the new root.
\<close>

theorem child_choice_right_default:
  fixes h :: "('a, 'p) BinHeap"
  shows "(second_child hole < len \<longrightarrow>
           bubble_down cmp h hole p len =
           (if less_pair cmp (data h ! (second_child hole - 1)) (data h ! second_child hole)
            then (if \<not> less_pair cmp (data h ! (second_child hole - 1)) p then (hole, move h p hole)
                  else bubble_down cmp (move h (data h ! (second_child hole - 1)) hole)
                         (second_child hole - 1) p len)
            else (if \<not> less_pair cmp (data h ! second_child hole) p then (hole, move h p hole)
                  else bubble_down cmp (move h (data h ! second_child hole) hole)
                         (second_child hole) p len))) \<and>
         (3 < length (data h) \<longrightarrow>
            (less_pair cmp (data h ! 1) (data h ! 2) \<longrightarrow>
             less_pair cmp (data h ! 1) (data h ! (length (data h) - 1)) \<longrightarrow>
               data (pop cmp h) ! 0 = data h ! 1) \<and>
            (\<not> less_pair cmp (data h ! 1) (data h ! 2) \<longrightarrow>
             less_pair cmp (data h ! 2) (data h ! (length (data h) - 1)) \<longrightarrow>
               data (pop cmp h) ! 0 = data h ! 2))"
proof -
  have a: "bubble_down cmp h hole p len =
           (if less_pair cmp (data h ! (second_child hole - 1)) (data h ! second_child hole)
            then (if \<not> less_pair cmp (data h ! (second_child hole - 1)) p then (hole, move h p hole)
                  else bubble_down cmp (move h (data h ! (second_child hole - 1)) hole)
                         (second_child hole - 1) p len)
            else (if \<not> less_pair cmp (data h ! second_child hole) p then (hole, move h p hole)
                  else bubble_down cmp (move h (data h ! second_child hole) hole)
                         (second_child hole) p len))"
    if "second_child hole < len"
    by (simp add: bubble_down_pair[OF that] pick_child_def Let_def)
  have b: "data (pop cmp h) ! 0 = data h ! 1"
    if "3 < length (data h)" "less_pair cmp (data h ! 1) (data h ! 2)"
      "less_pair cmp (data h ! 1) (data h ! (length (data h) - 1))"
    using that by (intro pop_new_root) (simp_all add: pick_child_def)
  have c: "data (pop cmp h) ! 0 = data h ! 2"
    if "3 < length (data h)" "\<not> less_pair cmp (data h ! 1) (data h ! 2)"
      "less_pair cmp (data h ! 2) (data h ! (length (data h) - 1))"
    using that by (intro pop_new_root) (simp_all add: pick_child_def)
  show ?thesis using a b c by blast
qed

theorem child_choice_right_default_witness:
  "second_child 0 < (4 :: nat) \<and> 3 < length (data tie_heap5) \<and>
   data tie_heap5 = [(1, 0), (2, 1), (3, 1), (4, 2), (5, 3)] \<and>
   \<not> less_pair (<) (data tie_heap5 ! 1) (data tie_heap5 ! 2) \<and>
   less_pair (<) (data tie_heap5 ! 2) (data tie_heap5 ! (length (data tie_heap5) - 1)) \<and>
   bubble_down (<) tie_heap5 0 (5, 3) 4 =
     bubble_down (<) (move tie_heap5 (data tie_heap5 ! second_child 0) 0) (second_child 0) (5, 3) 4 \<and>
   data (pop (<) tie_heap5) ! 0 = data tie_heap5 ! 2 \<and>
   data (pop (<) tie_heap5) = [(3, 1), (2, 1), (5, 3), (4, 2)]"
proof -
  note d = tie_heap5_data
  have a: "second_child 0 < (4 :: nat)" by (simp add: second_child_def)
  have l: "3 < length (data tie_heap5)" by (simp add: d)
  have b: "\<not> less_pair (<) (data tie_heap5 ! 1) (data tie_heap5 ! 2)"
    and c: "less_pair (<) (data tie_heap5 ! 2) (data tie_heap5 ! (length (data tie_heap5) - 1))"
    and b': "\<not> less_pair (<) (data tie_heap5 ! (second_child 0 - 1)) (data tie_heap5 ! second_child 0)"
    and c': "less_pair (<) (data tie_heap5 ! second_child 0) (5, 3 :: nat)"
    by (simp_all add: d less_pair_def second_child_def)
  have v: "data (pop (<) tie_heap5) = [(3, 1), (2, 1), (5, 3), (4, 2)]"
    unfolding tie_heap5_def tie_heap_def by code_simp
  note T = child_choice_right_default[of 0 4 "(<)" tie_heap5 "(5, 3)"]
  have e: "bubble_down (<) tie_heap5 0 (5, 3) 4 =
     bubble_down (<) (move tie_heap5 (data tie_heap5 ! second_child 0) 0) (second_child 0) (5, 3) 4"
    using conjunct1[OF T] a b' c' by simp
  have f: "data (pop (<) tie_heap5) ! 0 = data tie_heap5 ! 2"
    using conjunct2[OF T] l b c by blast
  show ?thesis by (intro conjI a l d b c e f v)
qed

text \<open>
  C4: for an item \<open>i\<close> in the heap, \<^verbatim>\<open>erase(i)\<close> leaves \<open>i\<close> in state POST_HEAP.  With \<open>k\<close>
  the slot of \<open>i\<close> and \<open>n\<close> the last slot, when \<open>k < n\<close> the last entry is bubbled up from
  slot \<open>k\<close>; if that call returns another slot, its result (less the last slot) is the
  result of \<^verbatim>\<open>erase\<close>; if it returns \<open>k\<close>, it has only stored the last entry in slot \<open>k\<close>,
  and the result of \<^verbatim>\<open>erase\<close> is that of the bubble-down from slot \<open>k\<close> (less the last
  slot).  Afterwards the heap order and the index invariants hold, and the entries are
  those before the call without the entry of \<open>i\<close>.
\<close>

theorem erase_restores_order:
  fixes h :: "('a, 'p) BinHeap"
  assumes "strict_weak_order cmp" and "heap_order cmp (data h)" and "indexed h"
    and "state h i = Some IN_HEAP"
  shows "state (erase cmp h i) i = Some POST_HEAP \<and>
         (let k = nat (iim h i); n = length (data h) - 1; h1 = unlink h k;
              up = bubble_up cmp h1 k (data h ! n);
              down = bubble_down cmp (snd up) k (data h ! n) n
          in k < n \<longrightarrow>
               (fst up \<noteq> k \<longrightarrow> erase cmp h i = (snd up)\<lparr>data := butlast (data (snd up))\<rparr>) \<and>
               (fst up = k \<longrightarrow> snd up = move h1 (data h ! n) k \<and>
                  erase cmp h i = (snd down)\<lparr>data := butlast (data (snd down))\<rparr>)) \<and>
         heap_order cmp (data (erase cmp h i)) \<and> indexed (erase cmp h i) \<and>
         mset (data (erase cmp h i)) = mset (data h) - {#(i, priorityOf h i)#}"
proof -
  have pre: "0 \<le> iim h i" using assms(4) by (simp add: state_IN_HEAP)
  let ?k = "nat (iim h i)" and ?n = "length (data h) - 1"
  let ?up = "bubble_up cmp (unlink h ?k) ?k (data h ! ?n)"
  let ?down = "bubble_down cmp (snd ?up) ?k (data h ! ?n) ?n"
  note ei = erase_indexed[OF assms(3) pre, of cmp]
  have st: "state (erase cmp h i) i = Some POST_HEAP" using ei by (simp add: state_POST_HEAP)
  have mid: "(fst ?up \<noteq> ?k \<longrightarrow> erase cmp h i = (snd ?up)\<lparr>data := butlast (data (snd ?up))\<rparr>) \<and>
      (fst ?up = ?k \<longrightarrow> snd ?up = move (unlink h ?k) (data h ! ?n) ?k \<and>
         erase cmp h i = (snd ?down)\<lparr>data := butlast (data (snd ?down))\<rparr>)"
    if kn: "?k < ?n"
  proof -
    have len: "length (data h) = Suc ?n" using kn by simp
    have er: "erase cmp h i = (relocated cmp h ?k ?n)\<lparr>data := butlast (data (relocated cmp h ?k ?n))\<rparr>"
      using kn by (simp add: erase_unfold Let_def)
    from relocated_cases[OF kn len, where cmp = cmp] show ?thesis
    proof (elim disjE conjE)
      assume "fst ?up \<noteq> ?k" "relocated cmp h ?k ?n = snd ?up"
      then show ?thesis using er by simp
    next
      assume "fst ?up = ?k" "snd ?up = move (unlink h ?k) (data h ! ?n) ?k"
        "relocated cmp h ?k ?n = snd (bubble_down cmp (move (unlink h ?k) (data h ! ?n) ?k) ?k (data h ! ?n) ?n)"
      then show ?thesis using er by simp
    qed
  qed
  show ?thesis
    unfolding Let_def
    using st mid ei erase_order[OF assms(1,2,3) pre] by blast
qed

theorem erase_restores_order_witness:
  "strict_weak_order ((<) :: nat \<Rightarrow> nat \<Rightarrow> bool) \<and> heap_order (<) (data demo_heap) \<and>
   indexed demo_heap \<and> state demo_heap 4 = Some IN_HEAP \<and> state demo_heap 3 = Some IN_HEAP \<and>
   nat (iim demo_heap 4) = 3 \<and> nat (iim demo_heap 3) = 2 \<and> length (data demo_heap) - 1 = 5 \<and>
   fst (bubble_up (<) (unlink demo_heap 3) 3 (data demo_heap ! 5)) = 1 \<and>
   fst (bubble_up (<) (unlink demo_heap 2) 2 (data demo_heap ! 5)) = 2 \<and>
   data (erase (<) demo_heap 4) = [(1, 1), (6, 3), (3, 2), (2, 10), (5, 12)] \<and>
   data (erase (<) demo_heap 3) = [(1, 1), (2, 10), (6, 3), (4, 11), (5, 12)] \<and>
   state (erase (<) demo_heap 4) 4 = Some POST_HEAP \<and>
   erase (<) demo_heap 4 =
     (snd (bubble_up (<) (unlink demo_heap 3) 3 (data demo_heap ! 5)))
       \<lparr>data := butlast (data (snd (bubble_up (<) (unlink demo_heap 3) 3 (data demo_heap ! 5))))\<rparr> \<and>
   erase (<) demo_heap 3 =
     (snd (bubble_down (<) (snd (bubble_up (<) (unlink demo_heap 2) 2 (data demo_heap ! 5))) 2
             (data demo_heap ! 5) 5))
       \<lparr>data := butlast (data (snd (bubble_down (<)
           (snd (bubble_up (<) (unlink demo_heap 2) 2 (data demo_heap ! 5))) 2 (data demo_heap ! 5) 5)))\<rparr> \<and>
   heap_order (<) (data (erase (<) demo_heap 4)) \<and> indexed (erase (<) demo_heap 4) \<and>
   mset (data (erase (<) demo_heap 4)) = mset (data demo_heap) - {#(4, priorityOf demo_heap 4)#}"
proof -
  have s4: "state demo_heap 4 = Some IN_HEAP" and s3: "state demo_heap 3 = Some IN_HEAP"
    and k4: "nat (iim demo_heap 4) = 3" and k3: "nat (iim demo_heap 3) = 2"
    and n: "length (data demo_heap) - 1 = 5"
    and u4: "fst (bubble_up (<) (unlink demo_heap 3) 3 (data demo_heap ! 5)) = 1"
    and u3: "fst (bubble_up (<) (unlink demo_heap 2) 2 (data demo_heap ! 5)) = 2"
    and d4: "data (erase (<) demo_heap 4) = [(1, 1), (6, 3), (3, 2), (2, 10), (5, 12)]"
    and d3: "data (erase (<) demo_heap 3) = [(1, 1), (2, 10), (6, 3), (4, 11), (5, 12)]"
    unfolding demo_heap_def by code_simp+
  note e4 = erase_restores_order[OF swo_less_nat demo_heap_order demo_heap_indexed s4,
      unfolded Let_def k4 n u4]
  note e3 = erase_restores_order[OF swo_less_nat demo_heap_order demo_heap_indexed s3,
      unfolded Let_def k3 n u3]
  have p4: "state (erase (<) demo_heap 4) 4 = Some POST_HEAP" by (rule conjunct1[OF e4])
  have lt: "(3 :: nat) < 5" "(1 :: nat) \<noteq> 3" "(2 :: nat) < 5" by simp_all
  have "erase (<) demo_heap 4 =
     (snd (bubble_up (<) (unlink demo_heap 3) 3 (data demo_heap ! 5)))
       \<lparr>data := butlast (data (snd (bubble_up (<) (unlink demo_heap 3) 3 (data demo_heap ! 5))))\<rparr> \<and>
     heap_order (<) (data (erase (<) demo_heap 4)) \<and> indexed (erase (<) demo_heap 4) \<and>
     mset (data (erase (<) demo_heap 4)) = mset (data demo_heap) - {#(4, priorityOf demo_heap 4)#}"
    using conjunct2[OF e4] lt by blast
  moreover have "erase (<) demo_heap 3 =
     (snd (bubble_down (<) (snd (bubble_up (<) (unlink demo_heap 2) 2 (data demo_heap ! 5))) 2
             (data demo_heap ! 5) 5))
       \<lparr>data := butlast (data (snd (bubble_down (<)
           (snd (bubble_up (<) (unlink demo_heap 2) 2 (data demo_heap ! 5))) 2 (data demo_heap ! 5) 5)))\<rparr>"
    using conjunct1[OF conjunct2[OF e3]] lt by blast
  ultimately show ?thesis
    using swo_less_nat demo_heap_order demo_heap_indexed s4 s3 k4 k3 n u4 u3 d4 d3 p4
    by (intro conjI) blast+
qed

text \<open>
  C5: push \<open>n\<close> pairs with pairwise distinct items on the fresh heap (every map entry PRE),
  then read \<^verbatim>\<open>top()\<close>, \<^verbatim>\<open>prio()\<close> and call \<^verbatim>\<open>pop()\<close> \<open>n\<close> times: the pairs read are the
  pairs pushed, no priority read compares less than one read before it, and the heap is
  empty afterwards.
\<close>

theorem sorted_extraction:
  fixes es :: "('a \<times> 'p) list"
  assumes "strict_weak_order cmp" and "distinct (map fst es)"
  shows "sorted_wrt (\<lambda>a b. \<not> cmp (snd b) (snd a))
           (fst (drain cmp (push_all cmp fresh es) (length es))) \<and>
         mset (fst (drain cmp (push_all cmp fresh es) (length es))) = mset es \<and>
         empty_heap (snd (drain cmp (push_all cmp fresh es) (length es)))"
proof -
  let ?h = "push_all cmp (fresh :: ('a, 'p) BinHeap) es"
  have "\<forall>e\<in>set es. iim (fresh :: ('a, 'p) BinHeap) (fst e) < 0"
    by (simp add: fresh_def new_heap_def)
  then have p: "heap_order cmp (data ?h) \<and> indexed ?h \<and> mset (data ?h) = mset (data (fresh :: ('a, 'p) BinHeap)) + mset es"
    by (intro push_all_invar[OF assms(1) heap_order_fresh indexed_fresh assms(2)])
  then have ms: "mset (data ?h) = mset es" by (simp add: fresh_def new_heap_def)
  then have "size (mset (data ?h)) = size (mset es)" by simp
  then have len: "length (data ?h) = length es" by simp
  show ?thesis
    using drain_sorted[OF assms(1) conjunct1[OF p] conjunct1[OF conjunct2[OF p]] len] ms
    by (simp add: empty_heap_def)
qed

theorem sorted_extraction_witness:
  "strict_weak_order ((<) :: nat \<Rightarrow> nat \<Rightarrow> bool) \<and>
   distinct (map fst [(1 :: nat, 3 :: nat), (2, 1), (3, 2)]) \<and>
   fst (drain (<) (push_all (<) fresh [(1 :: nat, 3 :: nat), (2, 1), (3, 2)]) 3) =
     [(2, 1), (3, 2), (1, 3)] \<and>
   sorted_wrt (\<lambda>a b. \<not> snd b < snd a)
     (fst (drain (<) (push_all (<) fresh [(1 :: nat, 3 :: nat), (2, 1), (3, 2)]) 3)) \<and>
   empty_heap (snd (drain (<) (push_all (<) fresh [(1 :: nat, 3 :: nat), (2, 1), (3, 2)]) 3))"
proof -
  have d: "distinct (map fst [(1 :: nat, 3 :: nat), (2, 1), (3, 2)])" by simp
  have v: "fst (drain (<) (push_all (<) fresh [(1 :: nat, 3 :: nat), (2, 1), (3, 2)]) 3) =
     [(2, 1), (3, 2), (1, 3)]" by code_simp
  have l: "length [(1 :: nat, 3 :: nat), (2, 1), (3, 2)] = 3" by simp
  show ?thesis
    using sorted_extraction[OF swo_less_nat d, unfolded l] swo_less_nat d v by blast
qed

text \<open>
  C6: \<^verbatim>\<open>set(i, p)\<close> is \<^verbatim>\<open>push(i, p)\<close> when the map entry of \<open>i\<close> is negative; for an item
  in the heap it is the bubble-up from the item's slot when \<open>p\<close> compares less than the
  stored priority, and the bubble-down from that slot otherwise.  On a heap that
  satisfies the invariants, a sequence of calls that meet their preconditions and the same
  sequence with every \<^verbatim>\<open>decrease\<close> and \<^verbatim>\<open>increase\<close> replaced by \<^verbatim>\<open>set\<close> end in the same
  heap, hence in the same pop order.
\<close>

theorem set_is_upsert:
  fixes h :: "('a, 'p) BinHeap"
  assumes "strict_weak_order cmp" and "heap_order cmp (data h)" and "indexed h"
  shows "(iim h i < 0 \<longrightarrow> set_prio cmp h i p = push cmp h (i, p)) \<and>
         (state h j = Some IN_HEAP \<and> cmp q (priorityOf h j) \<longrightarrow>
            set_prio cmp h j q = snd (bubble_up cmp h (nat (iim h j)) (j, q))) \<and>
         (state h k = Some IN_HEAP \<and> \<not> cmp r (priorityOf h k) \<longrightarrow>
            set_prio cmp h k r = snd (bubble_down cmp h (nat (iim h k)) (k, r) (length (data h)))) \<and>
         (run cmp h cs = Some h' \<longrightarrow>
            run cmp h (map as_set cs) = Some h' \<and>
            map_option (pop_order cmp) (run cmp h (map as_set cs)) =
              map_option (pop_order cmp) (run cmp h cs))"
proof -
  have a: "set_prio cmp h i p = push cmp h (i, p)" if "iim h i < 0"
    using that by (simp add: set_prio_cases)
  have b: "set_prio cmp h j q = snd (bubble_up cmp h (nat (iim h j)) (j, q))"
    if "state h j = Some IN_HEAP \<and> cmp q (priorityOf h j)"
    using that by (simp add: set_prio_cases state_IN_HEAP decrease_def)
  have c: "set_prio cmp h k r = snd (bubble_down cmp h (nat (iim h k)) (k, r) (length (data h)))"
    if "state h k = Some IN_HEAP \<and> \<not> cmp r (priorityOf h k)"
    using that by (simp add: set_prio_cases state_IN_HEAP increase_def)
  have d: "run cmp h (map as_set cs) = Some h' \<and>
      map_option (pop_order cmp) (run cmp h (map as_set cs)) =
        map_option (pop_order cmp) (run cmp h cs)"
    if "run cmp h cs = Some h'"
    using run_as_set[OF assms that] that by simp
  show ?thesis using a b c d by blast
qed

theorem set_is_upsert_witness:
  "strict_weak_order ((<) :: nat \<Rightarrow> nat \<Rightarrow> bool) \<and> heap_order (<) (data demo_heap) \<and>
   indexed demo_heap \<and> iim demo_heap 9 < 0 \<and>
   state demo_heap 4 = Some IN_HEAP \<and> (0 :: nat) < priorityOf demo_heap 4 \<and>
   state demo_heap 1 = Some IN_HEAP \<and> \<not> (20 :: nat) < priorityOf demo_heap 1 \<and>
   run (<) demo_heap change_calls = Some changed_heap \<and>
   set_prio (<) demo_heap 9 5 = push (<) demo_heap (9, 5) \<and>
   set_prio (<) demo_heap 4 0 = snd (bubble_up (<) demo_heap (nat (iim demo_heap 4)) (4, 0)) \<and>
   set_prio (<) demo_heap 1 20 =
     snd (bubble_down (<) demo_heap (nat (iim demo_heap 1)) (1, 20) (length (data demo_heap))) \<and>
   data changed_heap = [(4, 0), (2, 10), (6, 1), (1, 20), (5, 12), (3, 2)] \<and>
   run (<) demo_heap (map as_set change_calls) = Some changed_heap \<and>
   map_option (pop_order (<)) (run (<) demo_heap (map as_set change_calls)) =
     map_option (pop_order (<)) (run (<) demo_heap change_calls)"
proof -
  have n9: "iim demo_heap 9 < 0" and s4: "state demo_heap 4 = Some IN_HEAP"
    and p4: "(0 :: nat) < priorityOf demo_heap 4" and s1: "state demo_heap 1 = Some IN_HEAP"
    and p1: "\<not> (20 :: nat) < priorityOf demo_heap 1"
    unfolding demo_heap_def by code_simp+
  note T = set_is_upsert[OF swo_less_nat demo_heap_order demo_heap_indexed,
      of 9 5 4 0 1 20 change_calls changed_heap]
  show ?thesis
    using T n9 s4 p4 s1 p1 changed_heap_run
    by (intro conjI swo_less_nat demo_heap_order demo_heap_indexed changed_heap_data) blast+
qed

text \<open>
  C7: for \<open>oldItem\<close> in the heap and \<open>newItem\<close> not in it, \<^verbatim>\<open>replace\<close> exchanges the two
  values of the map and overwrites the item field of the entry: \<open>newItem\<close> is then in the
  heap, at the slot and with the priority \<open>oldItem\<close> had (and is reported by \<^verbatim>\<open>top()\<close> and
  \<^verbatim>\<open>prio()\<close> when that slot is the root), the state of \<open>oldItem\<close> is not IN_HEAP, the
  priorities slot by slot are unchanged, and the invariants still hold.
\<close>

theorem replace_renames:
  fixes h :: "('a, 'p) BinHeap"
  assumes "indexed h" and "state h i = Some IN_HEAP" and "iim h j < 0"
  shows "iim (replace h i j) i = iim h j \<and> iim (replace h i j) j = iim h i \<and>
         data (replace h i j) = (data h)[nat (iim h i) := (j, priorityOf h i)] \<and>
         state (replace h i j) j = Some IN_HEAP \<and>
         priorityOf (replace h i j) j = priorityOf h i \<and>
         state (replace h i j) i \<noteq> Some IN_HEAP \<and>
         map snd (data (replace h i j)) = map snd (data h) \<and>
         (top h = i \<longrightarrow> top (replace h i j) = j \<and> prio (replace h i j) = prio h) \<and>
         indexed (replace h i j) \<and>
         heap_order cmp (data (replace h i j)) = heap_order cmp (data h)"
proof -
  let ?k = "nat (iim h i)"
  have pi: "0 \<le> iim h i" using assms(2) by (simp add: state_IN_HEAP)
  have k: "?k < length (data h)" "data h ! ?k = (i, priorityOf h i)"
    using indexed_in_heap[OF assms(1) pi] by simp_all
  have ij: "i \<noteq> j" using pi assms(3) by auto
  have ir: "iim (replace h i j) = (iim h)(i := iim h j, j := iim h i)"
    and dr: "data (replace h i j) = (data h)[?k := (j, priorityOf h i)]"
    using k by (simp_all add: replace_unfold)
  have tp: "top (replace h i j) = j \<and> prio (replace h i j) = prio h" if "top h = i"
  proof -
    have "data h \<noteq> []" using k by auto
    then have "iim h (fst (data h ! 0)) = 0" using indexed_nth[OF assms(1), of 0] by simp
    then have "?k = 0" using that by (simp add: top_def)
    then show ?thesis using k by (simp add: dr top_def prio_def)
  qed
  have c1: "iim (replace h i j) i = iim h j" and c2: "iim (replace h i j) j = iim h i"
    using ij by (simp_all add: ir)
  have c4: "state (replace h i j) j = Some IN_HEAP" using pi by (simp add: state_IN_HEAP c2)
  have c5: "priorityOf (replace h i j) j = priorityOf h i"
    using k by (simp add: priorityOf_def[of "replace h i j"] c2 dr)
  have c6: "state (replace h i j) i \<noteq> Some IN_HEAP"
    using assms(3) by (simp add: state_IN_HEAP c1)
  show ?thesis
    using tp by (intro conjI c1 c2 dr c4 c5 c6 replace_prios replace_order
        replace_indexed[OF assms(1) pi assms(3)]) simp_all
qed

theorem replace_renames_witness:
  "indexed demo_heap \<and> state demo_heap 1 = Some IN_HEAP \<and> iim demo_heap 9 < 0 \<and>
   top demo_heap = 1 \<and>
   data (replace demo_heap 1 9) = [(9, 1), (2, 10), (3, 2), (4, 11), (5, 12), (6, 3)] \<and>
   state (replace demo_heap 1 9) 9 = Some IN_HEAP \<and>
   priorityOf (replace demo_heap 1 9) 9 = priorityOf demo_heap 1 \<and>
   state (replace demo_heap 1 9) 1 \<noteq> Some IN_HEAP \<and>
   map snd (data (replace demo_heap 1 9)) = map snd (data demo_heap) \<and>
   top (replace demo_heap 1 9) = 9 \<and> prio (replace demo_heap 1 9) = prio demo_heap \<and>
   indexed (replace demo_heap 1 9)"
proof -
  have s: "state demo_heap 1 = Some IN_HEAP" and n: "iim demo_heap 9 < 0"
    and t: "top demo_heap = 1"
    and d: "data (replace demo_heap 1 9) = [(9, 1), (2, 10), (3, 2), (4, 11), (5, 12), (6, 3)]"
    unfolding demo_heap_def by code_simp+
  show ?thesis
    using replace_renames[OF demo_heap_indexed s n, of "(<)"] demo_heap_indexed s n t d
    by (simp add: demo_heap_data)
qed

text \<open>
  C8: an item whose map entry is PRE reads \<^verbatim>\<open>PRE_HEAP\<close> (so does every item of the fresh
  heap), and \<^verbatim>\<open>IN_HEAP\<close> after it is pushed; the item removed by \<^verbatim>\<open>pop\<close> or \<^verbatim>\<open>erase\<close> reads
  \<^verbatim>\<open>POST_HEAP\<close>; \<^verbatim>\<open>state(j, st)\<close> with \<open>st\<close> one of PRE_HEAP, POST_HEAP on an item in the
  heap is \<^verbatim>\<open>erase(j)\<close> followed by the assignment of \<open>st\<close> to the map entry, keeps the
  invariants, and the item then reads \<open>st\<close>; \<^verbatim>\<open>state(j, IN_HEAP)\<close> changes nothing.
\<close>

theorem state_transitions:
  fixes h :: "('a, 'p) BinHeap"
  assumes "strict_weak_order cmp" and "heap_order cmp (data h)" and "indexed h"
  shows "state (fresh :: ('a, 'p) BinHeap) i = Some PRE_HEAP \<and>
         (iim h i = State_val PRE_HEAP \<longrightarrow>
            state h i = Some PRE_HEAP \<and> state (push cmp h (i, p)) i = Some IN_HEAP) \<and>
         (data h \<noteq> [] \<longrightarrow> state (pop cmp h) (top h) = Some POST_HEAP) \<and>
         (state h j = Some IN_HEAP \<longrightarrow> state (erase cmp h j) j = Some POST_HEAP) \<and>
         (state h j = Some IN_HEAP \<longrightarrow> st \<noteq> IN_HEAP \<longrightarrow>
            set_state cmp h j st = (erase cmp h j)\<lparr>iim := (iim (erase cmp h j))(j := State_val st)\<rparr> \<and>
            state (set_state cmp h j st) j = Some st \<and>
            indexed (set_state cmp h j st) \<and> heap_order cmp (data (set_state cmp h j st))) \<and>
         set_state cmp h j IN_HEAP = h"
proof -
  have a: "state (fresh :: ('a, 'p) BinHeap) i = Some PRE_HEAP"
    by (simp add: state_PRE_HEAP fresh_def new_heap_def)
  have b: "state h i = Some PRE_HEAP \<and> state (push cmp h (i, p)) i = Some IN_HEAP"
    if "iim h i = State_val PRE_HEAP"
    using that push_in_heap[OF assms(3), of i cmp p] by (simp add: state_PRE_HEAP state_IN_HEAP)
  have c: "state (pop cmp h) (top h) = Some POST_HEAP" if "data h \<noteq> []"
    using pop_indexed[OF assms(3) that, of cmp] by (simp add: state_POST_HEAP top_def)
  have d: "state (erase cmp h j) j = Some POST_HEAP" if "state h j = Some IN_HEAP"
    using erase_indexed[OF assms(3), of j cmp] that by (simp add: state_POST_HEAP state_IN_HEAP)
  have e: "set_state cmp h j st = (erase cmp h j)\<lparr>iim := (iim (erase cmp h j))(j := State_val st)\<rparr> \<and>
      state (set_state cmp h j st) j = Some st \<and>
      indexed (set_state cmp h j st) \<and> heap_order cmp (data (set_state cmp h j st))"
    if "state h j = Some IN_HEAP" "st \<noteq> IN_HEAP"
  proof -
    have u: "set_state cmp h j st = (erase cmp h j)\<lparr>iim := (iim (erase cmp h j))(j := State_val st)\<rparr>"
      using that by (simp add: set_state_unfold state_IN_HEAP Let_def)
    have "state (set_state cmp h j st) j = Some st"
      unfolding u using that(2) by (cases st) (simp_all add: state_PRE_HEAP state_POST_HEAP)
    then show ?thesis
      by (intro conjI u set_state_indexed[OF assms(3)] set_state_order[OF assms])
  qed
  have f: "set_state cmp h j IN_HEAP = h" by (simp add: set_state_unfold)
  show ?thesis using a b c d e f by blast
qed

theorem state_transitions_witness:
  "strict_weak_order ((<) :: nat \<Rightarrow> nat \<Rightarrow> bool) \<and> heap_order (<) (data demo_heap) \<and>
   indexed demo_heap \<and> iim demo_heap 9 = State_val PRE_HEAP \<and> data demo_heap \<noteq> [] \<and>
   state demo_heap 4 = Some IN_HEAP \<and> PRE_HEAP \<noteq> IN_HEAP \<and> top demo_heap = 1 \<and>
   state demo_heap 9 = Some PRE_HEAP \<and> state (push (<) demo_heap (9, 5)) 9 = Some IN_HEAP \<and>
   state (pop (<) demo_heap) (top demo_heap) = Some POST_HEAP \<and>
   state (erase (<) demo_heap 4) 4 = Some POST_HEAP \<and>
   set_state (<) demo_heap 4 PRE_HEAP =
     (erase (<) demo_heap 4)\<lparr>iim := (iim (erase (<) demo_heap 4))(4 := State_val PRE_HEAP)\<rparr> \<and>
   state (set_state (<) demo_heap 4 PRE_HEAP) 4 = Some PRE_HEAP \<and>
   indexed (set_state (<) demo_heap 4 PRE_HEAP) \<and>
   heap_order (<) (data (set_state (<) demo_heap 4 PRE_HEAP)) \<and>
   set_state (<) demo_heap 4 IN_HEAP = demo_heap"
proof -
  have i9: "iim demo_heap 9 = State_val PRE_HEAP" and ne: "data demo_heap \<noteq> []"
    and s4: "state demo_heap 4 = Some IN_HEAP" and t: "top demo_heap = 1"
    unfolding demo_heap_def by code_simp+
  have p: "PRE_HEAP \<noteq> IN_HEAP" by simp
  show ?thesis
    using state_transitions[OF swo_less_nat demo_heap_order demo_heap_indexed,
        of 9 5 4 PRE_HEAP] swo_less_nat demo_heap_order demo_heap_indexed i9 ne s4 t p
    by blast
qed

text \<open>
  C9: \<^verbatim>\<open>clear()\<close> empties the entry storage, so that \<^verbatim>\<open>size()\<close> is 0 and \<^verbatim>\<open>empty()\<close>
  holds, and leaves the value of the map at every item as it was.
\<close>

theorem clear_keeps_index:
  "data (clear h) = [] \<and> size_heap (clear h) = 0 \<and> empty_heap (clear h) \<and>
   (\<forall>x. iim (clear h) x = iim h x)"
  by (simp add: clear_def size_heap_def empty_heap_def)

text \<open>
  C10: on a heap whose map is coherent, \<^verbatim>\<open>decrease\<close>, \<^verbatim>\<open>increase\<close> and \<^verbatim>\<open>set\<close> of an
  item \<open>i\<close> that is in the heap leave the state of every item as it was (so the set of
  in-heap items is the same), make \<open>p\<close> the priority of \<open>i\<close>, keep the priority of every
  other in-heap item, and replace exactly the pair of \<open>i\<close> in the multiset of entries.
\<close>

theorem priority_change_frame:
  fixes h :: "('a, 'p) BinHeap"
  assumes "indexed h" and "state h i = Some IN_HEAP"
    and "h' = decrease cmp h i p \<or> h' = increase cmp h i p \<or> h' = set_prio cmp h i p"
  shows "(\<forall>x. state h' x = state h x) \<and> priorityOf h' i = p \<and>
         (\<forall>x. x \<noteq> i \<longrightarrow> state h x = Some IN_HEAP \<longrightarrow> priorityOf h' x = priorityOf h x) \<and>
         mset (data h') = add_mset (i, p) (mset (data h) - {#(i, priorityOf h i)#})"
proof -
  have pre: "0 \<le> iim h i" using assms(2) by (simp add: state_IN_HEAP)
  have "set_prio cmp h i p = decrease cmp h i p \<or> set_prio cmp h i p = increase cmp h i p"
    using pre by (simp add: set_prio_cases)
  then have "h' = decrease cmp h i p \<or> h' = increase cmp h i p" using assms(3) by auto
  then have eff: "indexed h' \<and>
      mset (data h') = add_mset (i, p) (mset (data h) - {#(i, priorityOf h i)#}) \<and>
      (\<forall>x. iim h x < 0 \<longrightarrow> iim h' x = iim h x)"
    using decrease_indexed[OF assms(1) pre, of cmp p] increase_indexed[OF assms(1) pre, of cmp p]
    by blast
  show ?thesis using reposition_effect[OF assms(1) pre eff] eff by blast
qed

theorem priority_change_frame_witness:
  "indexed demo_heap \<and> state demo_heap 4 = Some IN_HEAP \<and>
   state demo_heap 1 = Some IN_HEAP \<and> state demo_heap 3 = Some IN_HEAP \<and>
   (2 :: nat) \<noteq> 4 \<and> (2 :: nat) \<noteq> 1 \<and> (2 :: nat) \<noteq> 3 \<and>
   state demo_heap 2 = Some IN_HEAP \<and> priorityOf demo_heap 2 = 10 \<and>
   data (decrease (<) demo_heap 4 0) = [(4, 0), (1, 1), (3, 2), (2, 10), (5, 12), (6, 3)] \<and>
   data (increase (<) demo_heap 1 20) = [(3, 2), (2, 10), (6, 3), (4, 11), (5, 12), (1, 20)] \<and>
   data (set_prio (<) demo_heap 3 30) = [(1, 1), (2, 10), (6, 3), (4, 11), (5, 12), (3, 30)] \<and>
   (\<forall>x. state (decrease (<) demo_heap 4 0) x = state demo_heap x) \<and>
   (\<forall>x. state (increase (<) demo_heap 1 20) x = state demo_heap x) \<and>
   (\<forall>x. state (set_prio (<) demo_heap 3 30) x = state demo_heap x) \<and>
   priorityOf (decrease (<) demo_heap 4 0) 4 = 0 \<and>
   priorityOf (increase (<) demo_heap 1 20) 1 = 20 \<and>
   priorityOf (set_prio (<) demo_heap 3 30) 3 = 30 \<and>
   priorityOf (decrease (<) demo_heap 4 0) 2 = priorityOf demo_heap 2 \<and>
   priorityOf (increase (<) demo_heap 1 20) 2 = priorityOf demo_heap 2 \<and>
   priorityOf (set_prio (<) demo_heap 3 30) 2 = priorityOf demo_heap 2 \<and>
   mset (data (decrease (<) demo_heap 4 0)) =
     add_mset (4, 0) (mset (data demo_heap) - {#(4, priorityOf demo_heap 4)#}) \<and>
   mset (data (increase (<) demo_heap 1 20)) =
     add_mset (1, 20) (mset (data demo_heap) - {#(1, priorityOf demo_heap 1)#}) \<and>
   mset (data (set_prio (<) demo_heap 3 30)) =
     add_mset (3, 30) (mset (data demo_heap) - {#(3, priorityOf demo_heap 3)#})"
proof -
  have s4: "state demo_heap 4 = Some IN_HEAP" and s1: "state demo_heap 1 = Some IN_HEAP"
    and s3: "state demo_heap 3 = Some IN_HEAP" and s2: "state demo_heap 2 = Some IN_HEAP"
    and q: "priorityOf demo_heap 2 = 10"
    and d4: "data (decrease (<) demo_heap 4 0) = [(4, 0), (1, 1), (3, 2), (2, 10), (5, 12), (6, 3)]"
    and d1: "data (increase (<) demo_heap 1 20) = [(3, 2), (2, 10), (6, 3), (4, 11), (5, 12), (1, 20)]"
    and d3: "data (set_prio (<) demo_heap 3 30) = [(1, 1), (2, 10), (6, 3), (4, 11), (5, 12), (3, 30)]"
    unfolding demo_heap_def by code_simp+
  have ne: "(2 :: nat) \<noteq> 4" "(2 :: nat) \<noteq> 1" "(2 :: nat) \<noteq> 3" by simp_all
  note T4 = priority_change_frame[OF demo_heap_indexed s4, of "decrease (<) demo_heap 4 0" "(<)" 0]
  note T1 = priority_change_frame[OF demo_heap_indexed s1, of "increase (<) demo_heap 1 20" "(<)" 20]
  note T3 = priority_change_frame[OF demo_heap_indexed s3, of "set_prio (<) demo_heap 3 30" "(<)" 30]
  have "priorityOf (decrease (<) demo_heap 4 0) 2 = priorityOf demo_heap 2"
    "priorityOf (increase (<) demo_heap 1 20) 2 = priorityOf demo_heap 2"
    "priorityOf (set_prio (<) demo_heap 3 30) 2 = priorityOf demo_heap 2"
    using T4 T1 T3 ne s2 by blast+
  then show ?thesis
    using T4 T1 T3 by (intro conjI demo_heap_indexed s4 s1 s3 s2 ne q d4 d1 d3) blast+
qed

end
